theory Spec2Isabelle
  imports Main "HOL-Library.Sublist"
begin

section \<open>Configuration\<close>

text \<open>
  \<^verbatim>\<open>SOURCE_CHANNEL_ID\<close> and \<^verbatim>\<open>BOT_OWNER_ID\<close> are read from the environment once, as
  Python integers (0 when unset). \<^verbatim>\<open>POLL_SECONDS\<close> is the constant 30.
\<close>

record config =
  SOURCE_CHANNEL_ID :: int
  BOT_OWNER_ID :: int

definition POLL_SECONDS :: nat where
  "POLL_SECONDS = 30"

section \<open>Messages, attachments and embeds\<close>

text \<open>
  The fields of the SDK objects that \<^verbatim>\<open>find_latest_image\<close> reads. An attachment's
  \<^verbatim>\<open>content_type\<close> may be \<^verbatim>\<open>None\<close>. An embed's \<^verbatim>\<open>image\<close> is a proxy object that
  is falsy when the embed has no image (\<open>None\<close> here); its \<^verbatim>\<open>url\<close> may be \<^verbatim>\<open>None\<close>.
  A message's \<^verbatim>\<open>edited_at\<close> is \<^verbatim>\<open>None\<close> or a datetime, of type \<open>'t\<close>.
\<close>

record attachment =
  content_type :: "string option"
  att_url :: string

record image_proxy =
  image_url :: "string option"

record embed =
  embed_image :: "image_proxy option"

record 't message =
  msg_id :: int
  edited_at :: "'t option"
  attachments :: "attachment list"
  embeds :: "embed list"

section \<open>Python's text of an integer\<close>

definition digit_char :: "nat \<Rightarrow> char" where
  "digit_char d = char_of (48 + d)"

fun str_nat :: "nat \<Rightarrow> string" where
  "str_nat n = (if n < 10 then [digit_char n] else str_nat (n div 10) @ [digit_char (n mod 10)])"

declare str_nat.simps [simp del]

definition str_int :: "int \<Rightarrow> string" where
  "str_int i = (if i < 0 then CHR ''-'' # str_nat (nat (- i)) else str_nat (nat i))"

section \<open>The image finder\<close>

text \<open>\<^verbatim>\<open>s.startswith(p)\<close>.\<close>

definition startswith :: "string \<Rightarrow> string \<Rightarrow> bool" where
  "startswith s p = (take (length p) s = p)"

text \<open>\<^verbatim>\<open>(a.content_type or "").startswith("image/")\<close>.\<close>

definition is_image_attachment :: "attachment \<Rightarrow> bool" where
  "is_image_attachment a =
     startswith (case content_type a of None \<Rightarrow> [] | Some c \<Rightarrow> c) ''image/''"

text \<open>\<^verbatim>\<open>e.image and e.image.url\<close>: the proxy is truthy and its url is a non-empty string.\<close>

definition embed_url :: "embed \<Rightarrow> string option" where
  "embed_url e =
     (case embed_image e of
        None \<Rightarrow> None
      | Some p \<Rightarrow> (case image_url p of None \<Rightarrow> None | Some u \<Rightarrow> if u = [] then None else Some u))"

text \<open>
  \<^verbatim>\<open>edited = msg.edited_at.timestamp() if msg.edited_at else 0\<close>, as the f-string prints
  it: the integer 0 prints as \<open>0\<close>; \<open>stamp d\<close> stands for the text Python prints for the
  float \<^verbatim>\<open>d.timestamp()\<close>.
\<close>

definition edited_text :: "('t \<Rightarrow> string) \<Rightarrow> 't message \<Rightarrow> string" where
  "edited_text stamp msg = (case edited_at msg of None \<Rightarrow> ''0'' | Some d \<Rightarrow> stamp d)"

text \<open>\<^verbatim>\<open>f"{msg.id}:{edited}:{url}"\<close>.\<close>

definition signature :: "('t \<Rightarrow> string) \<Rightarrow> 't message \<Rightarrow> string \<Rightarrow> string" where
  "signature stamp msg u = str_int (msg_id msg) @ '':'' @ edited_text stamp msg @ '':'' @ u"

text \<open>The loop \<^verbatim>\<open>for a in msg.attachments\<close>: the url of the first image attachment.\<close>

fun scan_attachments :: "attachment list \<Rightarrow> string option" where
  "scan_attachments [] = None"
| "scan_attachments (a # as) =
     (if is_image_attachment a then Some (att_url a) else scan_attachments as)"

text \<open>The loop \<^verbatim>\<open>for e in msg.embeds\<close>: the url of the first embed that has an image.\<close>

fun scan_embeds :: "embed list \<Rightarrow> string option" where
  "scan_embeds [] = None"
| "scan_embeds (e # es) =
     (case embed_url e of Some u \<Rightarrow> Some u | None \<Rightarrow> scan_embeds es)"

text \<open>The loop \<^verbatim>\<open>async for msg in channel.history(...)\<close> over the messages it yields.\<close>

fun scan_messages :: "('t \<Rightarrow> string) \<Rightarrow> 't message list \<Rightarrow> string option \<times> string option" where
  "scan_messages stamp [] = (None, None)"
| "scan_messages stamp (msg # older) =
     (case scan_attachments (attachments msg) of
        Some u \<Rightarrow> (Some (signature stamp msg u), Some u)
      | None \<Rightarrow>
          (case scan_embeds (embeds msg) of
             Some u \<Rightarrow> (Some (signature stamp msg u), Some u)
           | None \<Rightarrow> scan_messages stamp older))"

declare scan_messages.simps(2) [simp del]

text \<open>
  A channel is the list of its messages, newest first;
  \<^verbatim>\<open>channel.history(limit=n, oldest_first=False)\<close> yields the first \<open>n\<close> of them.
\<close>

definition history :: "nat \<Rightarrow> 't message list \<Rightarrow> 't message list" where
  "history limit channel = take limit channel"

definition find_latest_image ::
  "('t \<Rightarrow> string) \<Rightarrow> 't message list \<Rightarrow> string option \<times> string option" where
  "find_latest_image stamp channel = scan_messages stamp (history 30 channel)"

subsection \<open>What counts as an image, stated on the data\<close>

definition has_embed_image :: "embed \<Rightarrow> bool" where
  "has_embed_image e = (embed_url e \<noteq> None)"

definition has_image :: "'t message \<Rightarrow> bool" where
  "has_image msg =
     ((\<exists>a \<in> set (attachments msg). is_image_attachment a) \<or>
      (\<exists>e \<in> set (embeds msg). has_embed_image e))"

text \<open>
  The url of a message's first image: its first image attachment if it has one,
  otherwise its first embed with an image.
\<close>

definition first_image_url :: "'t message \<Rightarrow> string" where
  "first_image_url msg =
     (case List.find is_image_attachment (attachments msg) of
        Some a \<Rightarrow> att_url a
      | None \<Rightarrow>
          (case List.find has_embed_image (embeds msg) of
             Some e \<Rightarrow> the (embed_url e)
           | None \<Rightarrow> []))"

section \<open>Awaited operations and their outcomes\<close>

text \<open>
  An awaited call returns, raises an exception (an instance of \<^verbatim>\<open>Exception\<close>:
  \<^verbatim>\<open>raise_for_status\<close>'s error with the response status, or any other one with its type
  name and its text), or is interrupted by \<^verbatim>\<open>asyncio.CancelledError\<close>, which is not an
  instance of \<^verbatim>\<open>Exception\<close>.
\<close>

datatype exn = ClientResponseError nat | Exn string string

datatype 'a await = Returned 'a | Raised exn | Cancelled

type_synonym bytes = string

text \<open>The response of \<^verbatim>\<open>session.get(url)\<close>: its status and what \<^verbatim>\<open>await r.read()\<close> does.\<close>

record response =
  status :: nat
  body :: "bytes await"

text \<open>
  What one iteration of \<^verbatim>\<open>while True\<close> meets: the outcome of reading the source
  channel's history (the whole channel, newest first, when it returns; the 30 messages
  are fetched in one request, before the first of them is looked at), of
  \<^verbatim>\<open>session.get\<close> for a url, of the two \<^verbatim>\<open>out_ch.send\<close> calls, and whether the
  iteration's \<^verbatim>\<open>asyncio.sleep\<close> is interrupted by cancellation (it raises nothing else).
\<close>

record 't cycle_env =
  channel_history :: "'t message list await"
  session_get :: "string \<Rightarrow> response await"
  send_archive :: "unit await"
  send_warning :: "unit await"
  sleep_cancelled :: bool

text \<open>
  What the runner posts to the output channel: the archived image (fixed caption, the
  fetched bytes as file \<^verbatim>\<open>archived.png\<close>) or the warning that names an exception.
\<close>

datatype post = Archived bytes | Warning exn

text \<open>The trace of a run: each operation performed, with its outcome.\<close>

datatype action = History | Get string | RaiseForStatus | Read | Send post | Sleep nat

datatype outcome = Ok | Failed exn | Interrupted

type_synonym event = "action \<times> outcome"

fun outcome_of :: "'a await \<Rightarrow> outcome" where
  "outcome_of (Returned x) = Ok"
| "outcome_of (Raised e) = Failed e"
| "outcome_of Cancelled = Interrupted"

section \<open>The runner\<close>

text \<open>
  How the \<^verbatim>\<open>try\<close> block of one iteration is left: by falling through to the sleep after
  it, by \<^verbatim>\<open>continue\<close>, by \<^verbatim>\<open>CancelledError\<close> (the handler that does \<^verbatim>\<open>break\<close>), or by
  an exception (the handler that posts the warning).
\<close>

datatype flow = FallThrough | Continue | Break | Except exn

datatype task_state = RUNNING | CANCELLED

text \<open>\<^verbatim>\<open>await asyncio.sleep(POLL_SECONDS); continue\<close> inside the \<^verbatim>\<open>try\<close> block.\<close>

definition sleep_continue ::
  "'t cycle_env \<Rightarrow> string option \<Rightarrow> event list \<Rightarrow> string option \<times> event list \<times> flow" where
  "sleep_continue env last_sig tr =
     (if sleep_cancelled env then (last_sig, tr @ [(Sleep POLL_SECONDS, Interrupted)], Break)
      else (last_sig, tr @ [(Sleep POLL_SECONDS, Ok)], Continue))"

text \<open>\<^verbatim>\<open>await out_ch.send(content=..., file=...)\<close>, then \<^verbatim>\<open>last_sig = sig\<close>.\<close>

definition send_image ::
  "'t cycle_env \<Rightarrow> string option \<Rightarrow> string \<Rightarrow> bytes \<Rightarrow> event list \<Rightarrow>
     string option \<times> event list \<times> flow" where
  "send_image env last_sig sig img tr =
     (case send_archive env of
        Returned _ \<Rightarrow> (Some sig, tr @ [(Send (Archived img), Ok)], FallThrough)
      | Raised e \<Rightarrow> (last_sig, tr @ [(Send (Archived img), Failed e)], Except e)
      | Cancelled \<Rightarrow> (last_sig, tr @ [(Send (Archived img), Interrupted)], Break))"

text \<open>
  \<^verbatim>\<open>async with session.get(url) as r: r.raise_for_status(); img = await r.read()\<close>,
  followed by the post. \<^verbatim>\<open>raise_for_status\<close> raises when the status is 400 or more.
\<close>

definition download_and_send ::
  "'t cycle_env \<Rightarrow> string option \<Rightarrow> string \<Rightarrow> string \<Rightarrow> event list \<Rightarrow>
     string option \<times> event list \<times> flow" where
  "download_and_send env last_sig sig url tr =
     (case session_get env url of
        Cancelled \<Rightarrow> (last_sig, tr @ [(Get url, Interrupted)], Break)
      | Raised e \<Rightarrow> (last_sig, tr @ [(Get url, Failed e)], Except e)
      | Returned r \<Rightarrow>
          if 400 \<le> status r then
            (last_sig,
             tr @ [(Get url, Ok), (RaiseForStatus, Failed (ClientResponseError (status r)))],
             Except (ClientResponseError (status r)))
          else
            (case body r of
               Cancelled \<Rightarrow>
                 (last_sig, tr @ [(Get url, Ok), (RaiseForStatus, Ok), (Read, Interrupted)], Break)
             | Raised e \<Rightarrow>
                 (last_sig, tr @ [(Get url, Ok), (RaiseForStatus, Ok), (Read, Failed e)], Except e)
             | Returned img \<Rightarrow>
                 send_image env last_sig sig img
                   (tr @ [(Get url, Ok), (RaiseForStatus, Ok), (Read, Ok)])))"

text \<open>
  The body of the \<^verbatim>\<open>try\<close>. \<^verbatim>\<open>not sig or not url\<close> holds for \<^verbatim>\<open>None\<close> and for the
  empty string.
\<close>

definition try_block ::
  "('t \<Rightarrow> string) \<Rightarrow> 't cycle_env \<Rightarrow> string option \<Rightarrow> string option \<times> event list \<times> flow" where
  "try_block stamp env last_sig =
     (case channel_history env of
        Cancelled \<Rightarrow> (last_sig, [(History, Interrupted)], Break)
      | Raised e \<Rightarrow> (last_sig, [(History, Failed e)], Except e)
      | Returned channel \<Rightarrow>
          (case find_latest_image stamp channel of
             (Some sig, Some url) \<Rightarrow>
               if sig = [] \<or> url = [] then sleep_continue env last_sig [(History, Ok)]
               else if Some sig = last_sig then sleep_continue env last_sig [(History, Ok)]
               else download_and_send env last_sig sig url [(History, Ok)]
           | _ \<Rightarrow> sleep_continue env last_sig [(History, Ok)]))"

text \<open>
  \<^verbatim>\<open>await asyncio.sleep(POLL_SECONDS)\<close> after the \<^verbatim>\<open>try\<close> statement. It is outside
  the \<^verbatim>\<open>try\<close>: a cancellation here leaves the coroutine.
\<close>

definition final_sleep ::
  "'t cycle_env \<Rightarrow> string option \<Rightarrow> event list \<Rightarrow> string option \<times> event list \<times> task_state" where
  "final_sleep env last_sig tr =
     (if sleep_cancelled env then (last_sig, tr @ [(Sleep POLL_SECONDS, Interrupted)], CANCELLED)
      else (last_sig, tr @ [(Sleep POLL_SECONDS, Ok)], RUNNING))"

text \<open>
  One iteration of \<^verbatim>\<open>while True\<close>: the \<^verbatim>\<open>try\<close> block and its two handlers. In the
  \<^verbatim>\<open>except Exception\<close> handler the warning is posted inside
  \<^verbatim>\<open>try: ... except Exception: pass\<close>, which does not catch \<^verbatim>\<open>CancelledError\<close>.
  The result is the new \<^verbatim>\<open>last_sig\<close>, the trace and whether the loop goes on.
\<close>

definition cycle ::
  "('t \<Rightarrow> string) \<Rightarrow> 't cycle_env \<Rightarrow> string option \<Rightarrow> string option \<times> event list \<times> task_state" where
  "cycle stamp env last_sig =
     (case try_block stamp env last_sig of
        (ls, tr, Break) \<Rightarrow> (ls, tr, CANCELLED)
      | (ls, tr, Continue) \<Rightarrow> (ls, tr, RUNNING)
      | (ls, tr, FallThrough) \<Rightarrow> final_sleep env ls tr
      | (ls, tr, Except e) \<Rightarrow>
          (case send_warning env of
             Cancelled \<Rightarrow> (ls, tr @ [(Send (Warning e), Interrupted)], CANCELLED)
           | Raised e' \<Rightarrow> final_sleep env ls (tr @ [(Send (Warning e), Failed e')])
           | Returned _ \<Rightarrow> final_sleep env ls (tr @ [(Send (Warning e), Ok)])))"

text \<open>
  The loop over the successive iterations' environments. The source loop has no exit
  but cancellation: after a finite list of environments the result says whether the loop
  is still running.
\<close>

fun runner_loop ::
  "('t \<Rightarrow> string) \<Rightarrow> 't cycle_env list \<Rightarrow> string option \<Rightarrow>
     string option \<times> event list \<times> task_state" where
  "runner_loop stamp [] last_sig = (last_sig, [], RUNNING)"
| "runner_loop stamp (env # envs) last_sig =
     (case cycle stamp env last_sig of
        (ls, tr, CANCELLED) \<Rightarrow> (ls, tr, CANCELLED)
      | (ls, tr, RUNNING) \<Rightarrow>
          (case runner_loop stamp envs ls of (ls', tr', st) \<Rightarrow> (ls', tr @ tr', st)))"

text \<open>\<^verbatim>\<open>runner\<close> starts with \<^verbatim>\<open>last_sig = None\<close>.\<close>

definition runner ::
  "('t \<Rightarrow> string) \<Rightarrow> 't cycle_env list \<Rightarrow> string option \<times> event list \<times> task_state" where
  "runner stamp envs = runner_loop stamp envs None"

subsection \<open>Reading a trace\<close>

fun is_send :: "event \<Rightarrow> bool" where
  "is_send (Send p, r) = True"
| "is_send (a, r) = False"

fun is_warning :: "action \<Rightarrow> bool" where
  "is_warning (Send (Warning e)) = True"
| "is_warning a = False"

subsection \<open>Reading an environment\<close>

text \<open>
  The iteration's sleep as the environment decides it, and the state it leaves.
\<close>

definition sleep_event :: "'t cycle_env \<Rightarrow> event" where
  "sleep_event env = (Sleep POLL_SECONDS, if sleep_cancelled env then Interrupted else Ok)"

definition after_sleep :: "'t cycle_env \<Rightarrow> task_state" where
  "after_sleep env = (if sleep_cancelled env then CANCELLED else RUNNING)"

text \<open>
  What is expected after an operation has raised \<open>e\<close>: the post of the warning for \<open>e\<close>,
  with the outcome the environment gives it, and, unless that post is interrupted by
  cancellation, the sleep.
\<close>

definition warning_and_sleep :: "'t cycle_env \<Rightarrow> exn \<Rightarrow> event list" where
  "warning_and_sleep env e =
     (Send (Warning e), outcome_of (send_warning env)) #
     (if send_warning env = Cancelled then [] else [sleep_event env])"

definition after_warning :: "'t cycle_env \<Rightarrow> task_state" where
  "after_warning env = (if send_warning env = Cancelled then CANCELLED else after_sleep env)"

text \<open>
  The environment lets the iteration read the history, and the image found there has a
  signature other than the recorded one and a url that is not empty.
\<close>

definition changed ::
  "('t \<Rightarrow> string) \<Rightarrow> 't cycle_env \<Rightarrow> string option \<Rightarrow> string \<Rightarrow> string \<Rightarrow> bool" where
  "changed stamp env last_sig sig url =
     (\<exists>channel. channel_history env = Returned channel \<and>
        find_latest_image stamp channel = (Some sig, Some url) \<and>
        url \<noteq> [] \<and> last_sig \<noteq> Some sig)"

text \<open>
  In the environment an operation of the iteration raises \<open>e\<close>, the operations before it
  having returned: the read of the history, or, for a changed image, the request, the
  status check (a status of 400 or more), the read of the body or the post of the image.
  \<open>pre\<close> lists the operations up to the one that raises.
\<close>

definition raising ::
  "('t \<Rightarrow> string) \<Rightarrow> 't cycle_env \<Rightarrow> string option \<Rightarrow> event list \<Rightarrow> exn \<Rightarrow> bool" where
  "raising stamp env last_sig pre e =
     ((channel_history env = Raised e \<and> pre = [(History, Failed e)]) \<or>
      (\<exists>sig url. changed stamp env last_sig sig url \<and>
         ((session_get env url = Raised e \<and> pre = [(History, Ok), (Get url, Failed e)]) \<or>
          (\<exists>r. session_get env url = Returned r \<and>
             ((400 \<le> status r \<and> e = ClientResponseError (status r) \<and>
               pre = [(History, Ok), (Get url, Ok), (RaiseForStatus, Failed e)]) \<or>
              (status r < 400 \<and> body r = Raised e \<and>
               pre = [(History, Ok), (Get url, Ok), (RaiseForStatus, Ok), (Read, Failed e)]) \<or>
              (\<exists>img. status r < 400 \<and> body r = Returned img \<and> send_archive env = Raised e \<and>
                 pre = [(History, Ok), (Get url, Ok), (RaiseForStatus, Ok), (Read, Ok),
                        (Send (Archived img), Failed e)]))))))"

text \<open>The environment cancels nothing: no awaited operation meets \<^verbatim>\<open>CancelledError\<close>.\<close>

definition uncancelled :: "'t cycle_env \<Rightarrow> bool" where
  "uncancelled env =
     (channel_history env \<noteq> Cancelled \<and>
      (\<forall>url. session_get env url \<noteq> Cancelled) \<and>
      (\<forall>url r. session_get env url = Returned r \<longrightarrow> body r \<noteq> Cancelled) \<and>
      send_archive env \<noteq> Cancelled \<and> send_warning env \<noteq> Cancelled \<and>
      \<not> sleep_cancelled env)"

section \<open>The owner check\<close>

definition is_owner :: "config \<Rightarrow> int \<Rightarrow> bool" where
  "is_owner cfg uid = (BOT_OWNER_ID cfg \<noteq> 0 \<and> uid = BOT_OWNER_ID cfg)"

section \<open>Channels, interactions and tasks\<close>

text \<open>A channel is a \<^verbatim>\<open>discord.TextChannel\<close> or a channel of any other class.\<close>

datatype channel = TextChannel int | OtherChannel int

record interaction =
  user_id :: int
  guild_id :: "int option"
  interaction_channel :: "channel option"

text \<open>
  The replies of the command, each sent with \<^verbatim>\<open>interaction.response.send_message\<close> and a
  flag \<^verbatim>\<open>ephemeral\<close>: owner-only, mode must be start or stop, stopped, no active archiver,
  the error of the source channel lookup, output must be a text channel, and started
  (source, output, poll seconds).
\<close>

datatype reply =
    OwnerOnly
  | BadMode
  | Stopped
  | NoActive
  | StartError exn
  | OutputNotText
  | Started channel channel nat

text \<open>
  An \<^verbatim>\<open>asyncio.Task\<close> running \<^verbatim>\<open>runner\<close>: pending, pending with a cancellation
  requested by \<^verbatim>\<open>cancel()\<close>, or done. \<^verbatim>\<open>task.done()\<close> holds in the last state only.
\<close>

datatype task_status = Pending | CancelRequested | Done

record task =
  task_key :: "int \<times> int"
  source_channel :: channel
  out_ch :: channel
  task_status :: task_status

text \<open>
  The module state: \<^verbatim>\<open>_active_archives\<close>, from a key to a task, and the tasks created so
  far. A task is referred to by its position in that list.
\<close>

record bot_state =
  active_archives :: "int \<times> int \<rightharpoonup> nat"
  tasks :: "task list"

definition init :: bot_state where
  "init = \<lparr>active_archives = Map.empty, tasks = []\<rparr>"

text \<open>
  \<^verbatim>\<open>task.done()\<close>. A position outside the list, which no entry ever holds, counts as done,
  so that nothing is cancelled there.
\<close>

definition task_done :: "bot_state \<Rightarrow> nat \<Rightarrow> bool" where
  "task_done st tid = (tid < length (tasks st) \<longrightarrow> task_status (tasks st ! tid) = Done)"

text \<open>\<^verbatim>\<open>task.cancel()\<close> on a task that is not done.\<close>

definition cancel :: "nat \<Rightarrow> bot_state \<Rightarrow> bot_state" where
  "cancel tid st =
     st\<lparr>tasks := (tasks st)[tid := (tasks st ! tid)\<lparr>task_status := CancelRequested\<rparr>]\<rparr>"

text \<open>A task is live when it is neither cancelled nor completed.\<close>

definition live :: "bot_state \<Rightarrow> nat \<Rightarrow> bool" where
  "live st tid = (tid < length (tasks st) \<and> task_status (tasks st ! tid) = Pending)"

definition live_tasks :: "bot_state \<Rightarrow> int \<times> int \<Rightarrow> nat list" where
  "live_tasks st key =
     filter (\<lambda>tid. task_key (tasks st ! tid) = key \<and> task_status (tasks st ! tid) = Pending)
       [0 ..< length (tasks st)]"

text \<open>
  What a command invocation finds outside the module state: the bot's channel cache
  (\<^verbatim>\<open>bot.get_channel\<close>), \<^verbatim>\<open>await bot.fetch_channel\<close>, and the outcome of awaiting
  \<^verbatim>\<open>interaction.response.send_message\<close>.
\<close>

record command_env =
  get_channel :: "int \<Rightarrow> channel option"
  fetch_channel :: "int \<Rightarrow> channel await"
  send_message :: "unit await"

section \<open>The command\<close>

text \<open>\<^verbatim>\<open>get_text_channel(channel_id)\<close>.\<close>

definition get_text_channel :: "command_env \<Rightarrow> int \<Rightarrow> channel await" where
  "get_text_channel env channel_id =
     (if channel_id = 0 then Raised (Exn ''RuntimeError'' ''SOURCE_CHANNEL_ID not set.'')
      else
        (case (case get_channel env channel_id of
                 Some ch \<Rightarrow> Returned ch
               | None \<Rightarrow> fetch_channel env channel_id) of
           Returned (TextChannel c) \<Rightarrow> Returned (TextChannel c)
         | Returned (OtherChannel c) \<Rightarrow>
             Raised (Exn ''RuntimeError'' ''Source channel is not a text channel.'')
         | Raised e \<Rightarrow> Raised e
         | Cancelled \<Rightarrow> Cancelled))"

text \<open>
  \<^verbatim>\<open>mode.lower().strip()\<close>, on the characters with a code below 256: the capital letters
  are A to Z and the codes 192 to 222 but 215, each 32 below its small letter; the white
  space is the codes 9 to 13, 28 to 32, 133 and 160.
\<close>

definition is_upper :: "nat \<Rightarrow> bool" where
  "is_upper n = ((65 \<le> n \<and> n \<le> 90) \<or> (192 \<le> n \<and> n \<le> 222 \<and> n \<noteq> 215))"

definition lower_char :: "char \<Rightarrow> char" where
  "lower_char c = (if is_upper (of_char c) then char_of (of_char c + 32 :: nat) else c)"

definition lower :: "string \<Rightarrow> string" where
  "lower s = map lower_char s"

definition is_space :: "char \<Rightarrow> bool" where
  "is_space c = ((of_char c :: nat) \<in> {9, 10, 11, 12, 13, 28, 29, 30, 31, 32, 133, 160})"

definition strip :: "string \<Rightarrow> string" where
  "strip s = rev (dropWhile is_space (rev (dropWhile is_space s)))"

text \<open>
  What is left of an invocation after its reply has been awaited: nothing, or, on the
  start path, the creation and registration of the runner's task (the last two
  statements of the function).
\<close>

datatype continuation = Finished | StartRunner "int \<times> int" channel channel

text \<open>
  \<^verbatim>\<open>old = _active_archives.pop(key, None); if old and not old.done(): old.cancel()\<close>.
  The stop path does the same with its \<^verbatim>\<open>task\<close> and replies by what it found.
\<close>

definition pop_and_cancel :: "bot_state \<Rightarrow> int \<times> int \<Rightarrow> bot_state \<times> bool" where
  "pop_and_cancel st key =
     (case active_archives st key of
        None \<Rightarrow> (st, False)
      | Some tid \<Rightarrow>
          (let st' = st\<lparr>active_archives := (active_archives st)(key := None)\<rparr>
           in if \<not> task_done st tid then (cancel tid st', True) else (st', False)))"

text \<open>\<^verbatim>\<open>key = (interaction.guild_id or 0, interaction.user.id)\<close>.\<close>

definition key_of :: "interaction \<Rightarrow> int \<times> int" where
  "key_of i = (case guild_id i of None \<Rightarrow> 0 | Some g \<Rightarrow> g, user_id i)"

text \<open>
  The command up to the point where it awaits the reply it sends: the new state, the
  reply with its \<^verbatim>\<open>ephemeral\<close> flag (none when \<^verbatim>\<open>CancelledError\<close> leaves the function
  before any reply), and what is left to do once the reply has been sent.
\<close>

definition archieved_begin ::
  "config \<Rightarrow> command_env \<Rightarrow> bot_state \<Rightarrow> interaction \<Rightarrow> string \<Rightarrow> channel option \<Rightarrow>
     bot_state \<times> (reply \<times> bool) option \<times> continuation" where
  "archieved_begin cfg env st i mode output_channel =
     (if \<not> is_owner cfg (user_id i) then (st, Some (OwnerOnly, True), Finished)
      else
        let mode = strip (lower mode) in
        if mode \<noteq> ''start'' \<and> mode \<noteq> ''stop'' then (st, Some (BadMode, True), Finished)
        else
          let key = key_of i in
          if mode = ''stop'' then
            (case pop_and_cancel st key of
               (st', True) \<Rightarrow> (st', Some (Stopped, True), Finished)
             | (st', False) \<Rightarrow> (st', Some (NoActive, True), Finished))
          else
            (case get_text_channel env (SOURCE_CHANNEL_ID cfg) of
               Raised e \<Rightarrow> (st, Some (StartError e, True), Finished)
             | Cancelled \<Rightarrow> (st, None, Finished)
             | Returned src \<Rightarrow>
                 (case (case output_channel of None \<Rightarrow> interaction_channel i | Some c \<Rightarrow> Some c) of
                    Some (TextChannel c) \<Rightarrow>
                      (fst (pop_and_cancel st key),
                       Some (Started src (TextChannel c) POLL_SECONDS, True),
                       StartRunner key src (TextChannel c))
                  | _ \<Rightarrow> (st, Some (OutputNotText, True), Finished))))"

text \<open>
  \<^verbatim>\<open>task = asyncio.create_task(runner()); _active_archives[key] = task\<close>: reached when
  the await of the reply returns; an exception or a cancellation there leaves the function.
\<close>

definition archieved_resume :: "bot_state \<Rightarrow> unit await \<Rightarrow> continuation \<Rightarrow> bot_state" where
  "archieved_resume st answer k =
     (case k of
        Finished \<Rightarrow> st
      | StartRunner key src out \<Rightarrow>
          (case answer of
             Returned _ \<Rightarrow>
               st\<lparr>active_archives := (active_archives st)(key \<mapsto> length (tasks st)),
                  tasks := tasks st @
                    [\<lparr>task_key = key, source_channel = src, out_ch = out, task_status = Pending\<rparr>]\<rparr>
           | _ \<Rightarrow> st))"

text \<open>An invocation that runs from its first statement to its last with nothing in between.\<close>

definition archieved ::
  "config \<Rightarrow> command_env \<Rightarrow> bot_state \<Rightarrow> interaction \<Rightarrow> string \<Rightarrow> channel option \<Rightarrow>
     bot_state \<times> (reply \<times> bool) option" where
  "archieved cfg env st i mode output_channel =
     (case archieved_begin cfg env st i mode output_channel of
        (st', r, k) \<Rightarrow> (archieved_resume st' (send_message env) k, r))"

text \<open>
  What happens to the module state over time when invocations do not overlap: an
  invocation runs from beginning to end, or a task comes to its end (a cancelled runner
  leaves its loop, or the coroutine dies).
\<close>

datatype bot_event =
    Invoke command_env interaction string "channel option"
  | TaskEnds nat

definition task_ends :: "nat \<Rightarrow> bot_state \<Rightarrow> bot_state" where
  "task_ends tid st =
     (if tid < length (tasks st)
      then st\<lparr>tasks := (tasks st)[tid := (tasks st ! tid)\<lparr>task_status := Done\<rparr>]\<rparr>
      else st)"

fun step :: "config \<Rightarrow> bot_state \<Rightarrow> bot_event \<Rightarrow> bot_state" where
  "step cfg st (Invoke env i mode output_channel) = fst (archieved cfg env st i mode output_channel)"
| "step cfg st (TaskEnds tid) = task_ends tid st"

definition run :: "config \<Rightarrow> bot_event list \<Rightarrow> bot_state \<Rightarrow> bot_state" where
  "run cfg evs st = foldl (step cfg) st evs"

section \<open>What the registry keeps\<close>

text \<open>
  Every entry of \<^verbatim>\<open>_active_archives\<close> is a task that was created for that key and on
  which no cancellation has been requested.
\<close>

definition registry_ok :: "bot_state \<Rightarrow> bool" where
  "registry_ok st =
     (\<forall>key tid. active_archives st key = Some tid \<longrightarrow>
        tid < length (tasks st) \<and> task_key (tasks st ! tid) = key \<and>
        task_status (tasks st ! tid) \<noteq> CancelRequested)"

text \<open>Every live task is the entry of its key.\<close>

definition live_registered :: "bot_state \<Rightarrow> bool" where
  "live_registered st =
     (\<forall>tid. live st tid \<longrightarrow> active_archives st (task_key (tasks st ! tid)) = Some tid)"

section \<open>The scenario of the specification\<close>

text \<open>
  A message without image and, older, the message with id 2, never edited, whose attachment
  is the image x.png; a printer of timestamps; and the environments of an iteration in
  which every operation succeeds, in which the image's server answers 404, and in which
  the history cannot be read and the warning cannot be posted either.
\<close>

definition msg_A :: "unit message" where
  "msg_A = \<lparr>msg_id = 1, edited_at = None, attachments = [], embeds = []\<rparr>"

definition msg_B :: "unit message" where
  "msg_B = \<lparr>msg_id = 2, edited_at = None,
            attachments = [\<lparr>content_type = Some ''image/png'', att_url = ''x.png''\<rparr>],
            embeds = []\<rparr>"

definition stamp_0 :: "unit \<Rightarrow> string" where
  "stamp_0 d = ''0.0''"

text \<open>A printer of whole seconds, as Python prints such a float: 5 as 5.0.\<close>

definition stamp_s :: "nat \<Rightarrow> string" where
  "stamp_s n = str_nat n @ ''.0''"

definition env_ok :: "unit cycle_env" where
  "env_ok = \<lparr>channel_history = Returned [msg_A, msg_B],
             session_get = (\<lambda>u. Returned \<lparr>status = 200, body = Returned ''PNG''\<rparr>),
             send_archive = Returned (),
             send_warning = Returned (),
             sleep_cancelled = False\<rparr>"

definition env_404 :: "unit cycle_env" where
  "env_404 = env_ok\<lparr>session_get := (\<lambda>u. Returned \<lparr>status = 404, body = Returned []\<rparr>)\<rparr>"

definition env_down :: "unit cycle_env" where
  "env_down = env_ok\<lparr>channel_history := Raised (Exn ''HTTPException'' ''503''),
                    send_warning := Raised (Exn ''Forbidden'' ''403'')\<rparr>"


text \<open>
  And the environments in which the post of the image is refused, the warning too, and in
  which the history cannot be read and the post of the warning is cancelled.
\<close>

definition env_refused :: "unit cycle_env" where
  "env_refused = env_ok\<lparr>send_archive := Raised (Exn ''Forbidden'' ''403''),
                       send_warning := Raised (Exn ''HTTPException'' ''500'')\<rparr>"


text \<open>
  For the command: an owner with id 7, the source channel 10 in the bot's cache, and the
  owner's invocation in guild 5, from the text channel 20.
\<close>

definition cfg_0 :: config where
  "cfg_0 = \<lparr>SOURCE_CHANNEL_ID = 10, BOT_OWNER_ID = 7\<rparr>"

definition cmd_env_ok :: command_env where
  "cmd_env_ok = \<lparr>get_channel = (\<lambda>c. if c = 10 then Some (TextChannel 10) else None),
                 fetch_channel = (\<lambda>c. Raised (Exn ''NotFound'' ''404'')),
                 send_message = Returned ()\<rparr>"

definition owner_call :: interaction where
  "owner_call = \<lparr>user_id = 7, guild_id = Some 5, interaction_channel = Some (TextChannel 20)\<rparr>"

section \<open>Properties of the decimal text and of signatures\<close>

lemma of_char_digit_char: "d < 10 \<Longrightarrow> of_char (digit_char d) = 48 + d"
  by (simp add: digit_char_def)

lemma digit_char_inj:
  assumes "a < 10" and "b < 10" and "digit_char a = digit_char b"
  shows "a = b"
proof -
  have "(of_char (digit_char a) :: nat) = of_char (digit_char b)"
    by (simp only: assms(3))
  then have "48 + a = 48 + b"
    by (simp only: of_char_digit_char [OF assms(1)] of_char_digit_char [OF assms(2)])
  then show ?thesis by simp
qed

lemma digit_char_not_colon:
  assumes "d < 10"
  shows "digit_char d \<noteq> CHR '':'' \<and> digit_char d \<noteq> CHR ''-''"
proof (intro conjI notI)
  assume "digit_char d = CHR '':''"
  then have "(of_char (digit_char d) :: nat) = 58" by simp
  then have "48 + d = 58" by (simp only: of_char_digit_char [OF assms])
  with assms show False by simp
next
  assume "digit_char d = CHR ''-''"
  then have "(of_char (digit_char d) :: nat) = 45" by simp
  then have "48 + d = 45" by (simp only: of_char_digit_char [OF assms])
  then show False by simp
qed

lemma str_nat_nonempty: "str_nat n \<noteq> []"
  by (subst str_nat.simps) simp

lemma str_nat_digits: "c \<in> set (str_nat n) \<Longrightarrow> \<exists>d < 10. c = digit_char d"
proof (induction n rule: str_nat.induct)
  case (1 n)
  show ?case
  proof (cases "n < 10")
    case True
    with 1(2) show ?thesis
      by (subst (asm) str_nat.simps) auto
  next
    case False
    with 1(2) have "c \<in> set (str_nat (n div 10)) \<or> c = digit_char (n mod 10)"
      by (subst (asm) str_nat.simps) auto
    then show ?thesis
    proof
      assume "c \<in> set (str_nat (n div 10))"
      then show ?thesis using 1(1) [OF False] by simp
    next
      assume "c = digit_char (n mod 10)"
      moreover have "n mod 10 < 10" by simp
      ultimately show ?thesis by blast
    qed
  qed
qed

lemma str_nat_inj: "str_nat n = str_nat m \<Longrightarrow> n = m"
proof (induction n arbitrary: m rule: str_nat.induct)
  case (1 n)
  have sn: "str_nat n = (if n < 10 then [digit_char n] else str_nat (n div 10) @ [digit_char (n mod 10)])"
    by (rule str_nat.simps)
  have sm: "str_nat m = (if m < 10 then [digit_char m] else str_nat (m div 10) @ [digit_char (m mod 10)])"
    by (rule str_nat.simps)
  show ?case
  proof (cases "n < 10")
    case True
    show ?thesis
    proof (cases "m < 10")
      case mt: True
      with True 1(2) sn sm have "digit_char n = digit_char m" by simp
      with True mt show ?thesis by (rule digit_char_inj)
    next
      case False
      with True 1(2) sn sm str_nat_nonempty [of "m div 10"] show ?thesis by auto
    qed
  next
    case False
    show ?thesis
    proof (cases "m < 10")
      case True
      with False 1(2) sn sm str_nat_nonempty [of "n div 10"] show ?thesis by auto
    next
      case mf: False
      with False 1(2) sn sm have e: "str_nat (n div 10) = str_nat (m div 10)"
        and d: "digit_char (n mod 10) = digit_char (m mod 10)" by auto
      have "n div 10 = m div 10" using 1(1) [OF False e] .
      moreover have "n mod 10 = m mod 10" by (rule digit_char_inj [OF _ _ d]) simp_all
      ultimately show ?thesis by (metis div_mult_mod_eq)
    qed
  qed
qed


lemma str_nat_no_colon: "CHR '':'' \<notin> set (str_nat n)"
proof
  assume "CHR '':'' \<in> set (str_nat n)"
  then obtain d where "d < 10" "CHR '':'' = digit_char d"
    using str_nat_digits by blast
  then show False using digit_char_not_colon [of d] by simp
qed

lemma str_nat_no_minus: "CHR ''-'' \<notin> set (str_nat n)"
proof
  assume "CHR ''-'' \<in> set (str_nat n)"
  then obtain d where "d < 10" "CHR ''-'' = digit_char d"
    using str_nat_digits by blast
  then show False using digit_char_not_colon [of d] by simp
qed

lemma str_int_no_colon: "CHR '':'' \<notin> set (str_int i)"
  by (simp add: str_int_def str_nat_no_colon)

lemma str_int_inj: "str_int i = str_int j \<Longrightarrow> i = j"
proof -
  assume e: "str_int i = str_int j"
  have hd: "str_nat n \<noteq> CHR ''-'' # cs" for n cs
    using str_nat_no_minus [of n] by auto
  show ?thesis
  proof (cases "i < 0")
    case True
    show ?thesis
    proof (cases "j < 0")
      case jt: True
      with True e have "nat (- i) = nat (- j)" by (auto simp: str_int_def dest: str_nat_inj)
      with True jt show ?thesis by simp
    next
      case False
      with True e hd [of "nat j" "str_nat (nat (- i))"] show ?thesis by (simp add: str_int_def)
    qed
  next
    case False
    show ?thesis
    proof (cases "j < 0")
      case True
      with False e hd [of "nat i" "str_nat (nat (- j))"] show ?thesis by (simp add: str_int_def)
    next
      case jf: False
      with False e have "nat i = nat j" by (auto simp: str_int_def dest: str_nat_inj)
      with False jf show ?thesis by simp
    qed
  qed
qed

lemma split_at_sep:
  "c \<notin> set xs \<Longrightarrow> c \<notin> set xs' \<Longrightarrow> xs @ c # ys = xs' @ c # ys' \<Longrightarrow> xs = xs' \<and> ys = ys'"
proof (induction xs arbitrary: xs')
  case Nil
  then show ?case by (cases xs') auto
next
  case (Cons x xs)
  then show ?case by (cases xs') auto
qed

lemma signature_inj:
  assumes colon: "\<And>d. CHR '':'' \<notin> set (stamp d)"
    and zero: "\<And>d. stamp d \<noteq> ''0''"
    and inj: "\<And>d d'. stamp d = stamp d' \<Longrightarrow> d = d'"
  shows "signature stamp m u = signature stamp m' u' \<longleftrightarrow>
           msg_id m = msg_id m' \<and> edited_at m = edited_at m' \<and> u = u'"
proof
  assume e: "signature stamp m u = signature stamp m' u'"
  have ed: "CHR '':'' \<notin> set (edited_text stamp x)" for x :: "'a message"
    using colon by (simp add: edited_text_def split: option.splits)
  from e have "str_int (msg_id m) @ CHR '':'' # (edited_text stamp m @ CHR '':'' # u) =
               str_int (msg_id m') @ CHR '':'' # (edited_text stamp m' @ CHR '':'' # u')"
    by (simp add: signature_def)
  then have a: "str_int (msg_id m) = str_int (msg_id m')"
    and b: "edited_text stamp m @ CHR '':'' # u = edited_text stamp m' @ CHR '':'' # u'"
    using split_at_sep [OF str_int_no_colon str_int_no_colon] by blast+
  from b have c: "edited_text stamp m = edited_text stamp m'" and d: "u = u'"
    using split_at_sep [OF ed ed] by blast+
  from c have "edited_at m = edited_at m'"
    using zero inj by (auto simp: edited_text_def split: option.splits)
  with a d show "msg_id m = msg_id m' \<and> edited_at m = edited_at m' \<and> u = u'"
    by (simp add: str_int_inj)
next
  assume "msg_id m = msg_id m' \<and> edited_at m = edited_at m' \<and> u = u'"
  then show "signature stamp m u = signature stamp m' u'"
    by (simp add: signature_def edited_text_def)
qed

section \<open>Properties of the image finder\<close>

lemma scan_attachments_find:
  "scan_attachments as = map_option att_url (List.find is_image_attachment as)"
  by (induction as) auto

lemma scan_embeds_find:
  "scan_embeds es = (case List.find has_embed_image es of
                       None \<Rightarrow> None | Some e \<Rightarrow> embed_url e)"
  by (induction es) (auto simp: has_embed_image_def split: option.splits)

lemma scan_message_none:
  assumes "\<not> has_image msg"
  shows "scan_attachments (attachments msg) = None \<and> scan_embeds (embeds msg) = None"
proof -
  have "List.find is_image_attachment (attachments msg) = None"
    using assms by (auto simp: has_image_def find_None_iff)
  moreover have "List.find has_embed_image (embeds msg) = None"
    using assms by (auto simp: has_image_def find_None_iff)
  ultimately show ?thesis
    by (simp add: scan_attachments_find scan_embeds_find)
qed

lemma scan_message_some:
  assumes "has_image msg"
  shows "(case scan_attachments (attachments msg) of
            Some u \<Rightarrow> Some u | None \<Rightarrow> scan_embeds (embeds msg)) = Some (first_image_url msg)"
proof (cases "List.find is_image_attachment (attachments msg)")
  case (Some a)
  then show ?thesis
    by (simp add: scan_attachments_find first_image_url_def)
next
  case None
  then have "\<exists>e \<in> set (embeds msg). has_embed_image e"
    using assms by (auto simp: has_image_def find_None_iff)
  then obtain e where e: "List.find has_embed_image (embeds msg) = Some e"
    by (cases "List.find has_embed_image (embeds msg)") (auto simp: find_None_iff)
  then have "has_embed_image e"
    by (auto simp: find_Some_iff)
  then obtain u where "embed_url e = Some u"
    by (auto simp: has_embed_image_def)
  with None e show ?thesis
    by (simp add: scan_attachments_find scan_embeds_find first_image_url_def)
qed

lemma scan_messages_skip:
  "\<forall>x \<in> set pre. \<not> has_image x \<Longrightarrow> scan_messages stamp (pre @ rest) = scan_messages stamp rest"
  by (induction pre) (simp_all add: scan_message_none scan_messages.simps(2))

lemma scan_messages_hit:
  assumes "has_image msg"
  shows "scan_messages stamp (msg # older) =
           (Some (signature stamp msg (first_image_url msg)), Some (first_image_url msg))"
  using scan_message_some [OF assms] by (auto simp: scan_messages.simps(2) split: option.splits)


text \<open>
  C1. Over the 30 newest messages of any channel, scanned newest first: when none of
  them has an image the finder returns (None, None); otherwise, for the newest message
  that has one (every newer message having none), it returns the signature and url of
  that message's first image, an image attachment before any embed. The result does not
  depend on the messages older than that one.
\<close>

theorem find_latest_image_newest_first:
  "((\<forall>x \<in> set (take 30 channel). \<not> has_image x) \<longrightarrow>
      find_latest_image stamp channel = (None, None)) \<and>
   (\<forall>pre msg older.
      channel = pre @ msg # older \<and> length pre < 30 \<and>
      (\<forall>x \<in> set pre. \<not> has_image x) \<and> has_image msg \<longrightarrow>
      find_latest_image stamp channel =
        (Some (signature stamp msg (first_image_url msg)), Some (first_image_url msg)) \<and>
      find_latest_image stamp channel = find_latest_image stamp (pre @ [msg]))"
proof (intro conjI impI allI)
  assume "\<forall>x \<in> set (take 30 channel). \<not> has_image x"
  then show "find_latest_image stamp channel = (None, None)"
    using scan_messages_skip [of "take 30 channel" stamp "[]"]
    by (simp add: find_latest_image_def history_def)
next
  fix pre msg older
  assume h: "channel = pre @ msg # older \<and> length pre < 30 \<and>
             (\<forall>x \<in> set pre. \<not> has_image x) \<and> has_image msg"
  then obtain n where n: "30 - length pre = Suc n"
    by (cases "30 - length pre") auto
  have a: "find_latest_image stamp (pre @ msg # older) =
             (Some (signature stamp msg (first_image_url msg)), Some (first_image_url msg))"
    for older
    using h n by (simp add: find_latest_image_def history_def scan_messages_skip
        scan_messages_hit)
  show "find_latest_image stamp channel =
          (Some (signature stamp msg (first_image_url msg)), Some (first_image_url msg))"
    using a h by simp
  show "find_latest_image stamp channel = find_latest_image stamp (pre @ [msg])"
    using a [of older] a [of "[]"] h by simp
qed

lemma str_int_2: "str_int 2 = ''2''"
  by code_simp

theorem find_latest_image_newest_first_witness:
  "(let quiet = \<lparr>msg_id = 3, edited_at = None :: unit option,
                   attachments = [\<lparr>content_type = Some ''text/plain'', att_url = ''n.txt''\<rparr>],
                   embeds = [\<lparr>embed_image = None\<rparr>]\<rparr>;
        hit = \<lparr>msg_id = 2, edited_at = None,
                 attachments = [\<lparr>content_type = None, att_url = ''a.bin''\<rparr>,
                                \<lparr>content_type = Some ''image/png'', att_url = ''x.png''\<rparr>],
                 embeds = [\<lparr>embed_image = Some \<lparr>image_url = Some ''e.png''\<rparr>\<rparr>]\<rparr>;
        old = \<lparr>msg_id = 1, edited_at = None,
                 attachments = [\<lparr>content_type = Some ''image/gif'', att_url = ''o.gif''\<rparr>],
                 embeds = []\<rparr>
    in \<not> has_image quiet \<and> has_image hit \<and> has_image old \<and>
       find_latest_image (\<lambda>_. ''0.0'') [quiet, hit, old] = (Some ''2:0:x.png'', Some ''x.png'') \<and>
       find_latest_image (\<lambda>_. ''0.0'') [quiet, hit, old] = find_latest_image (\<lambda>_. ''0.0'') [quiet, hit] \<and>
       find_latest_image (\<lambda>_. ''0.0'') [quiet] = (None, None))"
proof -
  define quiet :: "unit message" where "quiet = \<lparr>msg_id = 3, edited_at = None :: unit option,
                   attachments = [\<lparr>content_type = Some ''text/plain'', att_url = ''n.txt''\<rparr>],
                   embeds = [\<lparr>embed_image = None\<rparr>]\<rparr>"
  define hit :: "unit message" where "hit = \<lparr>msg_id = 2, edited_at = None,
                 attachments = [\<lparr>content_type = None, att_url = ''a.bin''\<rparr>,
                                \<lparr>content_type = Some ''image/png'', att_url = ''x.png''\<rparr>],
                 embeds = [\<lparr>embed_image = Some \<lparr>image_url = Some ''e.png''\<rparr>\<rparr>]\<rparr>"
  define old :: "unit message" where "old = \<lparr>msg_id = 1, edited_at = None,
                 attachments = [\<lparr>content_type = Some ''image/gif'', att_url = ''o.gif''\<rparr>],
                 embeds = []\<rparr>"
  have q: "\<not> has_image quiet"
    by (simp add: quiet_def has_image_def is_image_attachment_def startswith_def
        has_embed_image_def embed_url_def)
  have h: "has_image hit"
    by (simp add: hit_def has_image_def is_image_attachment_def startswith_def)
  have ol: "has_image old"
    by (simp add: old_def has_image_def is_image_attachment_def startswith_def)
  have u: "first_image_url hit = ''x.png''"
    by (simp add: hit_def first_image_url_def is_image_attachment_def startswith_def)
  have s: "signature (\<lambda>_. ''0.0'') hit ''x.png'' = ''2:0:x.png''"
    by (simp add: hit_def signature_def edited_text_def str_int_2)
  have pre: "[quiet, hit, old] = [quiet] @ hit # [old] \<and> length [quiet] < 30 \<and>
             (\<forall>x \<in> set [quiet]. \<not> has_image x) \<and> has_image hit"
    using q h by simp
  have a: "find_latest_image (\<lambda>_. ''0.0'') [quiet, hit, old] = (Some ''2:0:x.png'', Some ''x.png'') \<and>
       find_latest_image (\<lambda>_. ''0.0'') [quiet, hit, old] = find_latest_image (\<lambda>_. ''0.0'') [quiet, hit]"
    using find_latest_image_newest_first [of "[quiet, hit, old]" "\<lambda>_. ''0.0''", THEN conjunct2,
        rule_format, OF pre, unfolded u s append.simps] .
  have b: "find_latest_image (\<lambda>_. ''0.0'') [quiet] = (None, None)"
    using find_latest_image_newest_first [of "[quiet]" "\<lambda>_. ''0.0''", THEN conjunct1] q by simp
  show ?thesis
    using q h ol a b unfolding quiet_def hit_def old_def Let_def by blast
qed


lemma scan_messages_sig:
  "scan_messages stamp ms = (Some sg, Some u) \<Longrightarrow> \<exists>msg \<in> set ms. sg = signature stamp msg u"
  by (induction ms) (auto simp: scan_messages.simps(2) split: option.splits)

text \<open>
  C5. The signature the finder returns is the text of the message id, a colon, the text of
  the edit timestamp (0 when the message was never edited), a colon and the image url, for
  a message of the window. When the text of a timestamp never contains a colon, is never
  the text of the integer 0 and differs for different timestamps (all true of the text
  Python prints for a float), two signatures are equal exactly when the message ids, the
  edit timestamps and the urls are equal. For the history of a message without image and
  a message with id 2, never edited, whose first attachment is the image x.png, the finder
  returns the signature 2:0:x.png and the url x.png.
\<close>

theorem signature_components:
  "(find_latest_image stamp channel = (Some sg, Some u) \<longrightarrow>
      (\<exists>msg \<in> set (take 30 channel).
         sg = str_int (msg_id msg) @ '':'' @
              (case edited_at msg of None \<Rightarrow> ''0'' | Some d \<Rightarrow> stamp d) @ '':'' @ u)) \<and>
   ((\<forall>d. CHR '':'' \<notin> set (stamp d) \<and> stamp d \<noteq> ''0'') \<and> inj stamp \<longrightarrow>
      (signature stamp m u1 = signature stamp m' u2 \<longleftrightarrow>
         msg_id m = msg_id m' \<and> edited_at m = edited_at m' \<and> u1 = u2)) \<and>
   (\<not> has_image A \<and> msg_id B = 2 \<and> edited_at B = None \<and>
    attachments B = a # rest \<and> is_image_attachment a \<and> att_url a = ''x.png'' \<longrightarrow>
      find_latest_image stamp [A, B] = (Some ''2:0:x.png'', Some ''x.png''))"
proof (intro conjI impI)
  assume "find_latest_image stamp channel = (Some sg, Some u)"
  then show "\<exists>msg \<in> set (take 30 channel).
         sg = str_int (msg_id msg) @ '':'' @
              (case edited_at msg of None \<Rightarrow> ''0'' | Some d \<Rightarrow> stamp d) @ '':'' @ u"
    using scan_messages_sig [of stamp "take 30 channel" sg u]
    by (simp add: find_latest_image_def history_def signature_def edited_text_def)
next
  assume h: "(\<forall>d. CHR '':'' \<notin> set (stamp d) \<and> stamp d \<noteq> ''0'') \<and> inj stamp"
  then have "\<And>d d'. stamp d = stamp d' \<Longrightarrow> d = d'"
    by (auto dest: injD)
  with h show "signature stamp m u1 = signature stamp m' u2 \<longleftrightarrow>
         msg_id m = msg_id m' \<and> edited_at m = edited_at m' \<and> u1 = u2"
    by (intro signature_inj) auto
next
  assume h: "\<not> has_image A \<and> msg_id B = 2 \<and> edited_at B = None \<and>
    attachments B = a # rest \<and> is_image_attachment a \<and> att_url a = ''x.png''"
  then have "scan_messages stamp [A, B] = scan_messages stamp [B]"
    using scan_messages_skip [of "[A]" stamp "[B]"] by simp
  also have "\<dots> = (Some (signature stamp B ''x.png''), Some ''x.png'')"
    using h by (simp add: scan_messages.simps(2))
  also have "signature stamp B ''x.png'' = ''2:0:x.png''"
    using h by (simp add: signature_def edited_text_def str_int_2)
  finally show "find_latest_image stamp [A, B] = (Some ''2:0:x.png'', Some ''x.png'')"
    by (simp add: find_latest_image_def history_def)
qed

lemma stamp_s_ok:
  "(\<forall>d. CHR '':'' \<notin> set (stamp_s d) \<and> stamp_s d \<noteq> ''0'') \<and> inj stamp_s"
proof (intro conjI allI)
  fix d
  show "CHR '':'' \<notin> set (stamp_s d)"
    by (simp add: stamp_s_def str_nat_no_colon)
  have "length (stamp_s d) \<noteq> length ''0''"
    using str_nat_nonempty [of d] by (cases "str_nat d") (simp_all add: stamp_s_def)
  then show "stamp_s d \<noteq> ''0''"
    by auto
next
  show "inj stamp_s"
    by (rule injI) (simp add: stamp_s_def str_nat_inj)
qed

theorem signature_components_witness:
  "(let A = \<lparr>msg_id = 1, edited_at = Some 5, attachments = [], embeds = []\<rparr>;
        a = \<lparr>content_type = Some ''image/png'', att_url = ''x.png''\<rparr>;
        B = \<lparr>msg_id = 2, edited_at = None, attachments = [a], embeds = []\<rparr>
    in (\<forall>d. CHR '':'' \<notin> set (stamp_s d) \<and> stamp_s d \<noteq> ''0'') \<and> inj stamp_s \<and>
       \<not> has_image A \<and> is_image_attachment a \<and>
       find_latest_image stamp_s [A, B] = (Some ''2:0:x.png'', Some ''x.png'') \<and>
       (\<exists>msg \<in> set (take 30 [A, B]).
          ''2:0:x.png'' = str_int (msg_id msg) @ '':'' @
              (case edited_at msg of None \<Rightarrow> ''0'' | Some d \<Rightarrow> stamp_s d) @ '':'' @ ''x.png'') \<and>
       signature stamp_s B ''x.png'' \<noteq> signature stamp_s (B\<lparr>edited_at := Some 0\<rparr>) ''x.png'' \<and>
       signature stamp_s B ''x.png'' \<noteq> signature stamp_s (B\<lparr>msg_id := 20\<rparr>) ''x.png'' \<and>
       signature stamp_s B ''x.png'' \<noteq> signature stamp_s B ''y.png'' \<and>
       signature stamp_s (A\<lparr>edited_at := Some 6\<rparr>) ''x.png'' \<noteq> signature stamp_s A ''x.png'')"
proof -
  define A :: "nat message" where
    "A = \<lparr>msg_id = 1, edited_at = Some 5, attachments = [], embeds = []\<rparr>"
  define a where "a = \<lparr>content_type = Some ''image/png'', att_url = ''x.png''\<rparr>"
  define B :: "nat message" where
    "B = \<lparr>msg_id = 2, edited_at = None, attachments = [a], embeds = []\<rparr>"
  note st = stamp_s_ok
  have A: "\<not> has_image A"
    by (simp add: A_def has_image_def)
  have a: "is_image_attachment a"
    by (simp add: a_def is_image_attachment_def startswith_def)
  have sc: "\<not> has_image A \<and> msg_id B = 2 \<and> edited_at B = None \<and>
    attachments B = a # [] \<and> is_image_attachment a \<and> att_url a = ''x.png''"
    using A a by (simp add: B_def) (simp add: a_def)
  have f: "find_latest_image stamp_s [A, B] = (Some ''2:0:x.png'', Some ''x.png'')"
    using signature_components [of stamp_s "[A, B]" _ _ B _ B _ A B a "[]", THEN conjunct2,
        THEN conjunct2, rule_format, OF sc] .
  have c: "\<exists>msg \<in> set (take 30 [A, B]).
          ''2:0:x.png'' = str_int (msg_id msg) @ '':'' @
              (case edited_at msg of None \<Rightarrow> ''0'' | Some d \<Rightarrow> stamp_s d) @ '':'' @ ''x.png''"
    using signature_components [of stamp_s "[A, B]" "''2:0:x.png''" "''x.png''" B _ B _ A B a "[]",
        THEN conjunct1, rule_format, OF f] .
  have iff: "signature stamp_s m u1 = signature stamp_s m' u2 \<longleftrightarrow>
               msg_id m = msg_id m' \<and> edited_at m = edited_at m' \<and> u1 = u2" for m m' u1 u2
    using signature_components [of stamp_s "[A, B]" _ _ m u1 m' u2 A B a "[]", THEN conjunct2,
        THEN conjunct1, rule_format, OF st] .
  have i1: "signature stamp_s B ''x.png'' \<noteq> signature stamp_s (B\<lparr>edited_at := Some 0\<rparr>) ''x.png''"
    by (simp add: iff B_def)
  have i2: "signature stamp_s B ''x.png'' \<noteq> signature stamp_s (B\<lparr>msg_id := 20\<rparr>) ''x.png''"
    by (simp add: iff B_def)
  have i3: "signature stamp_s B ''x.png'' \<noteq> signature stamp_s B ''y.png''"
    by (simp add: iff)
  have i4: "signature stamp_s (A\<lparr>edited_at := Some 6\<rparr>) ''x.png'' \<noteq> signature stamp_s A ''x.png''"
    by (simp add: iff A_def)
  show ?thesis
    using st A a f c i1 i2 i3 i4 unfolding A_def a_def B_def Let_def by blast
qed

section \<open>Properties of the runner\<close>

lemmas cycle_defs = cycle_def try_block_def download_and_send_def send_image_def
  sleep_continue_def final_sleep_def

lemmas cycle_splits = await.splits option.splits prod.splits flow.splits if_splits

lemma cycle_failure_reported:
  assumes "cycle stamp env ls = (ls', tr, st)" and "(a, Failed e) \<in> set tr" and "\<not> is_warning a"
  shows "ls' = ls \<and>
         suffix ((a, Failed e) # (Send (Warning e), outcome_of (send_warning env)) #
                 (if send_warning env = Cancelled then []
                  else [(Sleep POLL_SECONDS, if sleep_cancelled env then Interrupted else Ok)])) tr"
  using assms by (auto simp: cycle_defs suffix_Cons split: cycle_splits)

lemma cycle_cancelled_iff:
  assumes "cycle stamp env ls = (ls', tr, st)"
  shows "st = CANCELLED \<longleftrightarrow> (\<exists>a. (a, Interrupted) \<in> set tr)"
  using assms by (auto simp: cycle_defs split: cycle_splits)

lemma cycle_one_history:
  assumes "cycle stamp env ls = (ls', tr, st)"
  shows "length (filter (\<lambda>ev. fst ev = History) tr) = 1"
  using assms by (auto simp: cycle_defs split: cycle_splits)




lemma runner_loop_step:
  assumes "runner_loop stamp (env # envs) ls = (ls', tr, st)"
  obtains (stop) ls1 tr1 where "cycle stamp env ls = (ls1, tr1, CANCELLED)"
      and "ls' = ls1" and "tr = tr1" and "st = CANCELLED"
  | (go) ls1 tr1 tr2 where "cycle stamp env ls = (ls1, tr1, RUNNING)"
      and "runner_loop stamp envs ls1 = (ls', tr2, st)" and "tr = tr1 @ tr2"
  using assms by (auto split: prod.splits task_state.splits)

lemma runner_loop_running:
  assumes "runner_loop stamp envs ls = (ls', tr, st)" and "\<forall>a. (a, Interrupted) \<notin> set tr"
  shows "st = RUNNING \<and> length (filter (\<lambda>ev. fst ev = History) tr) = length envs"
  using assms
proof (induction envs arbitrary: ls tr)
  case Nil
  then show ?case by simp
next
  case (Cons env envs)
  from Cons.prems(1) show ?case
  proof (cases rule: runner_loop_step)
    case (stop ls1 tr1)
    then show ?thesis
      using cycle_cancelled_iff [of stamp env ls ls1 tr1 CANCELLED] Cons.prems(2) by auto
  next
    case (go ls1 tr1 tr2)
    then have "st = RUNNING \<and> length (filter (\<lambda>ev. fst ev = History) tr2) = length envs"
      using Cons.IH [of ls1 tr2] Cons.prems(2) by auto
    then show ?thesis
      using go cycle_one_history [of stamp env ls ls1 tr1 RUNNING] by simp
  qed
qed





lemma scenario_find:
  "find_latest_image stamp_0 [msg_A, msg_B] = (Some ''2:0:x.png'', Some ''x.png'')"
  by (simp add: find_latest_image_def history_def scan_messages.simps(2) msg_A_def msg_B_def
      is_image_attachment_def startswith_def signature_def edited_text_def str_int_2)

lemma cycle_env_ok_first:
  "cycle stamp_0 env_ok None =
     (Some ''2:0:x.png'',
      [(History, Ok), (Get ''x.png'', Ok), (RaiseForStatus, Ok), (Read, Ok),
       (Send (Archived ''PNG''), Ok), (Sleep POLL_SECONDS, Ok)], RUNNING)"
  by (simp add: cycle_defs env_ok_def scenario_find)

lemma cycle_env_ok_again:
  "cycle stamp_0 env_ok (Some ''2:0:x.png'') =
     (Some ''2:0:x.png'', [(History, Ok), (Sleep POLL_SECONDS, Ok)], RUNNING)"
  by (simp add: cycle_defs env_ok_def scenario_find)

lemma cycle_env_404:
  "cycle stamp_0 env_404 None =
     (None,
      [(History, Ok), (Get ''x.png'', Ok), (RaiseForStatus, Failed (ClientResponseError 404)),
       (Send (Warning (ClientResponseError 404)), Ok), (Sleep POLL_SECONDS, Ok)], RUNNING)"
  by (simp add: cycle_defs env_404_def env_ok_def scenario_find)



lemma find_latest_image_sig_nonempty:
  assumes "find_latest_image stamp channel = (Some sig, Some url)"
  shows "sig \<noteq> []"
proof -
  obtain msg where "sig = signature stamp msg url"
    using assms scan_messages_sig [of stamp "take 30 channel" sig url]
    by (auto simp: find_latest_image_def history_def)
  then show ?thesis
    by (simp add: signature_def)
qed

text \<open>
  C3. In an iteration that finds a signature different from the recorded one (with a url
  that is not empty), the recorded signature becomes the new one exactly when the image is
  fetched (the request returns, its status is below 400, the body is read) and the post to
  the output channel returns; the trace then holds that successful post. In every other
  case the recorded signature is what it was, and when the loop goes on, the next iteration
  that finds the same signature and url requests the url again.
\<close>

theorem last_sig_updated_only_after_success:
  assumes "channel_history env = Returned channel"
    and "find_latest_image stamp channel = (Some sig, Some url)"
    and "url \<noteq> []" and "last_sig \<noteq> Some sig"
    and "cycle stamp env last_sig = (ls, tr, st)"
  shows "ls = (if (\<exists>r img. session_get env url = Returned r \<and> status r < 400 \<and>
                      body r = Returned img) \<and> send_archive env = Returned ()
               then Some sig else last_sig) \<and>
         (ls = Some sig \<longleftrightarrow> (\<exists>img. (Send (Archived img), Ok) \<in> set tr)) \<and>
         (ls = last_sig \<and> st = RUNNING \<and> channel_history env' = Returned channel' \<and>
          find_latest_image stamp channel' = (Some sig, Some url) \<longrightarrow>
            (Get url, outcome_of (session_get env' url))
              \<in> set (fst (snd (cycle stamp env' ls))))"
proof (intro conjI)
  note s = find_latest_image_sig_nonempty [OF assms(2)]
  show "ls = (if (\<exists>r img. session_get env url = Returned r \<and> status r < 400 \<and>
                      body r = Returned img) \<and> send_archive env = Returned ()
               then Some sig else last_sig)"
    using assms s by (auto simp: cycle_defs split: cycle_splits)
  show "ls = Some sig \<longleftrightarrow> (\<exists>img. (Send (Archived img), Ok) \<in> set tr)"
    using assms s by (auto simp: cycle_defs split: cycle_splits)
  show "ls = last_sig \<and> st = RUNNING \<and> channel_history env' = Returned channel' \<and>
          find_latest_image stamp channel' = (Some sig, Some url) \<longrightarrow>
            (Get url, outcome_of (session_get env' url))
              \<in> set (fst (snd (cycle stamp env' ls)))"
    using assms(3,4) s by (auto simp: cycle_defs split: cycle_splits)
qed

theorem last_sig_updated_only_after_success_witness:
  "cycle stamp_0 env_404 None =
     (None,
      [(History, Ok), (Get ''x.png'', Ok), (RaiseForStatus, Failed (ClientResponseError 404)),
       (Send (Warning (ClientResponseError 404)), Ok), (Sleep POLL_SECONDS, Ok)], RUNNING) \<and>
   (Get ''x.png'', Ok) \<in> set (fst (snd (cycle stamp_0 env_ok None))) \<and>
   fst (cycle stamp_0 env_ok None) = Some ''2:0:x.png''"
proof -
  have h: "channel_history env_404 = Returned [msg_A, msg_B]"
    by (simp add: env_404_def env_ok_def)
  have h': "channel_history env_ok = Returned [msg_A, msg_B]"
    by (simp add: env_ok_def)
  have g: "outcome_of (session_get env_ok ''x.png'') = Ok"
    by (simp add: env_ok_def)
  have u: "''x.png'' \<noteq> []" and n: "None \<noteq> Some ''2:0:x.png''"
    by simp_all
  have "(Get ''x.png'', outcome_of (session_get env_ok ''x.png''))
          \<in> set (fst (snd (cycle stamp_0 env_ok None)))"
    using last_sig_updated_only_after_success [OF h scenario_find u n cycle_env_404,
        of env_ok "[msg_A, msg_B]"] h' scenario_find by blast
  then show ?thesis
    using cycle_env_404 cycle_env_ok_first g by simp
qed


text \<open>
  Two consecutive iterations in which the finder yields the recorded signature, here
  2:0:x.png, post nothing at all: \<^verbatim>\<open>if sig == last_sig\<close> skips the download and the post
  in both.
\<close>

theorem unchanged_image_counterexample:
  "channel_history env_ok = Returned [msg_A, msg_B] \<and>
   find_latest_image stamp_0 [msg_A, msg_B] = (Some ''2:0:x.png'', Some ''x.png'') \<and>
   runner_loop stamp_0 [env_ok, env_ok] (Some ''2:0:x.png'') =
     (Some ''2:0:x.png'',
      [(History, Ok), (Sleep POLL_SECONDS, Ok), (History, Ok), (Sleep POLL_SECONDS, Ok)],
      RUNNING) \<and>
   filter is_send
     [(History, Ok), (Sleep POLL_SECONDS, Ok), (History, Ok), (Sleep POLL_SECONDS, Ok)] = []"
  by (simp add: scenario_find cycle_env_ok_again) (simp add: env_ok_def)

text \<open>
  C2, amended. Of two consecutive iterations that both find the same signature, where the
  first finds it different from the recorded one and records it (its fetch and its post
  succeed), the second posts nothing and leaves the recorded signature as it is: across
  the two iterations exactly one post is issued, the archived image. The witness is the
  specification's scenario: two iterations that both see 2:0:x.png, from a fresh runner.
\<close>

theorem unchanged_image_reposted_once:
  assumes "channel_history env1 = Returned channel1"
    and "find_latest_image stamp channel1 = (Some sig, Some url)"
    and "channel_history env2 = Returned channel2"
    and "find_latest_image stamp channel2 = (Some sig, Some url)"
    and "cycle stamp env1 last_sig = (ls1, tr1, RUNNING)"
    and "last_sig \<noteq> Some sig" and "ls1 = Some sig"
    and "cycle stamp env2 ls1 = (ls2, tr2, st2)"
  shows "ls2 = ls1 \<and> filter is_send tr2 = [] \<and>
         (\<exists>img. filter is_send (tr1 @ tr2) = [(Send (Archived img), Ok)])"
proof -
  have a: "ls2 = ls1 \<and> filter is_send tr2 = []"
    using assms(3,4,7,8) by (auto simp: cycle_defs split: cycle_splits)
  have b: "\<exists>img. filter is_send tr1 = [(Send (Archived img), Ok)]"
    using assms(1,2,5,6,7) by (auto simp: cycle_defs split: cycle_splits)
  from a b show ?thesis by simp
qed


theorem unchanged_image_reposted_once_witness:
  "cycle stamp_0 env_ok None =
     (Some ''2:0:x.png'',
      [(History, Ok), (Get ''x.png'', Ok), (RaiseForStatus, Ok), (Read, Ok),
       (Send (Archived ''PNG''), Ok), (Sleep POLL_SECONDS, Ok)], RUNNING) \<and>
   cycle stamp_0 env_ok (Some ''2:0:x.png'') =
     (Some ''2:0:x.png'', [(History, Ok), (Sleep POLL_SECONDS, Ok)], RUNNING) \<and>
   filter is_send
      ([(History, Ok), (Get ''x.png'', Ok), (RaiseForStatus, Ok), (Read, Ok),
        (Send (Archived ''PNG''), Ok), (Sleep POLL_SECONDS, Ok)] @
       [(History, Ok), (Sleep POLL_SECONDS, Ok)]) = [(Send (Archived ''PNG''), Ok)] \<and>
   runner stamp_0 [env_ok, env_ok] =
     (Some ''2:0:x.png'',
      [(History, Ok), (Get ''x.png'', Ok), (RaiseForStatus, Ok), (Read, Ok),
       (Send (Archived ''PNG''), Ok), (Sleep POLL_SECONDS, Ok),
       (History, Ok), (Sleep POLL_SECONDS, Ok)], RUNNING)"
proof -
  have h: "channel_history env_ok = Returned [msg_A, msg_B]"
    by (simp add: env_ok_def)
  have n: "None \<noteq> Some ''2:0:x.png''"
    by simp
  have r: "runner stamp_0 [env_ok, env_ok] =
     (Some ''2:0:x.png'',
      [(History, Ok), (Get ''x.png'', Ok), (RaiseForStatus, Ok), (Read, Ok),
       (Send (Archived ''PNG''), Ok), (Sleep POLL_SECONDS, Ok),
       (History, Ok), (Sleep POLL_SECONDS, Ok)], RUNNING)"
    by (simp add: runner_def cycle_env_ok_first cycle_env_ok_again)
  have "\<exists>img. filter is_send
      ([(History, Ok), (Get ''x.png'', Ok), (RaiseForStatus, Ok), (Read, Ok),
        (Send (Archived ''PNG''), Ok), (Sleep POLL_SECONDS, Ok)] @
       [(History, Ok), (Sleep POLL_SECONDS, Ok)]) = [(Send (Archived img), Ok)]"
    using unchanged_image_reposted_once [OF h scenario_find h scenario_find cycle_env_ok_first
        n refl cycle_env_ok_again] by blast
  then have "filter is_send
      ([(History, Ok), (Get ''x.png'', Ok), (RaiseForStatus, Ok), (Read, Ok),
        (Send (Archived ''PNG''), Ok), (Sleep POLL_SECONDS, Ok)] @
       [(History, Ok), (Sleep POLL_SECONDS, Ok)]) = [(Send (Archived ''PNG''), Ok)]"
    by simp
  with r show ?thesis
    using cycle_env_ok_first cycle_env_ok_again by blast
qed

lemmas env_defs = sleep_event_def after_sleep_def warning_and_sleep_def after_warning_def

lemma changed_sig_nonempty:
  assumes "changed stamp env ls sig url"
  shows "sig \<noteq> []"
  using assms find_latest_image_sig_nonempty unfolding changed_def by blast

lemma cycle_raising:
  assumes "raising stamp env ls pre e"
  shows "cycle stamp env ls = (ls, pre @ warning_and_sleep env e, after_warning env)"
proof -
  consider (history) "channel_history env = Raised e" "pre = [(History, Failed e)]"
    | (later) sig url where "changed stamp env ls sig url"
        "(session_get env url = Raised e \<and> pre = [(History, Ok), (Get url, Failed e)]) \<or>
          (\<exists>r. session_get env url = Returned r \<and>
             ((400 \<le> status r \<and> e = ClientResponseError (status r) \<and>
               pre = [(History, Ok), (Get url, Ok), (RaiseForStatus, Failed e)]) \<or>
              (status r < 400 \<and> body r = Raised e \<and>
               pre = [(History, Ok), (Get url, Ok), (RaiseForStatus, Ok), (Read, Failed e)]) \<or>
              (\<exists>img. status r < 400 \<and> body r = Returned img \<and> send_archive env = Raised e \<and>
                 pre = [(History, Ok), (Get url, Ok), (RaiseForStatus, Ok), (Read, Ok),
                        (Send (Archived img), Failed e)])))"
    using assms unfolding raising_def by blast
  then show ?thesis
  proof cases
    case history
    then show ?thesis
      by (cases "send_warning env") (simp_all add: cycle_defs env_defs)
  next
    case (later sig url)
    from later(1) obtain channel where c: "channel_history env = Returned channel"
      "find_latest_image stamp channel = (Some sig, Some url)" "url \<noteq> []" "ls \<noteq> Some sig"
      unfolding changed_def by blast
    note s = changed_sig_nonempty [OF later(1)]
    from later(2) show ?thesis
      using c s by (cases "send_warning env") (auto simp: cycle_defs env_defs)
  qed
qed

lemma cycle_uncancelled:
  assumes "uncancelled env"
  shows "snd (snd (cycle stamp env ls)) = RUNNING"
proof -
  have a: "channel_history env \<noteq> Cancelled" "send_archive env \<noteq> Cancelled"
    "send_warning env \<noteq> Cancelled" "\<not> sleep_cancelled env"
    and g: "\<And>url. session_get env url \<noteq> Cancelled"
    and b: "\<And>url r. session_get env url = Returned r \<Longrightarrow> body r \<noteq> Cancelled"
    using assms unfolding uncancelled_def by blast+
  show ?thesis
    using a g b by (auto simp: cycle_defs split: cycle_splits)
qed


lemma runner_loop_uncancelled:
  assumes "\<forall>env \<in> set envs. uncancelled env"
  shows "snd (snd (runner_loop stamp envs ls)) = RUNNING \<and>
         length (filter (\<lambda>ev. fst ev = History) (fst (snd (runner_loop stamp envs ls)))) =
           length envs"
  using assms
proof (induction envs arbitrary: ls)
  case Nil
  then show ?case by simp
next
  case (Cons env envs)
  obtain ls1 tr1 st1 where c: "cycle stamp env ls = (ls1, tr1, st1)"
    by (cases "cycle stamp env ls") auto
  then have r: "st1 = RUNNING"
    using cycle_uncancelled [of env stamp ls] Cons.prems by simp
  obtain ls2 tr2 st2 where l: "runner_loop stamp envs ls1 = (ls2, tr2, st2)"
    by (cases "runner_loop stamp envs ls1") auto
  have "st2 = RUNNING \<and> length (filter (\<lambda>ev. fst ev = History) tr2) = length envs"
    using Cons.IH [of ls1] Cons.prems l by simp
  then show ?case
    using c r l cycle_one_history [of stamp env ls ls1 tr1 st1] by simp
qed






lemma scenario_changed:
  "changed stamp_0 env_ok None ''2:0:x.png'' ''x.png''"
  unfolding changed_def by (rule exI [of _ "[msg_A, msg_B]"]) (simp add: env_ok_def scenario_find)

lemma raising_env_refused:
  "raising stamp_0 env_refused None
     [(History, Ok), (Get ''x.png'', Ok), (RaiseForStatus, Ok), (Read, Ok),
      (Send (Archived ''PNG''), Failed (Exn ''Forbidden'' ''403''))]
     (Exn ''Forbidden'' ''403'')"
proof -
  have c: "changed stamp_0 env_refused None ''2:0:x.png'' ''x.png''"
    using scenario_changed by (simp add: changed_def env_refused_def)
  have g: "session_get env_refused ''x.png'' = Returned \<lparr>status = 200, body = Returned ''PNG''\<rparr>"
    and p: "send_archive env_refused = Raised (Exn ''Forbidden'' ''403'')"
    by (simp_all add: env_refused_def env_ok_def)
  show ?thesis
    unfolding raising_def
    by (rule disjI2, rule exI [of _ "''2:0:x.png''"], rule exI [of _ "''x.png''"])
       (simp add: c g p)
qed

lemma raising_env_down:
  "raising stamp_0 env_down None [(History, Failed (Exn ''HTTPException'' ''503''))]
     (Exn ''HTTPException'' ''503'')"
  by (simp add: raising_def env_down_def)

lemma uncancelled_envs:
  "uncancelled env_down" "uncancelled env_refused"
  by (simp_all add: uncancelled_def env_down_def env_refused_def env_ok_def)




text \<open>
  C6. Stated on what the environment does: when an operation of an iteration raises an
  exception (the read of the history, or, for a changed image, the request, the status
  check, the read of the body or the post of the image), the iteration posts the warning
  that names that exception right after it and leaves the recorded signature as it was;
  whatever that post does short of a cancellation (it returns, or it raises and its
  exception is dropped), the sleep of POLL_SECONDS follows, and the loop goes on unless
  the cancellation comes during that post or that sleep. Over any number of iterations in
  whose environments nothing is cancelled, whatever is raised, the loop is still running
  at the end and every iteration has been run. The same on the trace alone: a failed
  operation other than the warning post is followed at once by the warning post for its
  exception and then the sleep, and an iteration stops the loop only when one of its
  operations was interrupted by cancellation.
\<close>

theorem cycle_errors_reported_and_survived:
  "(raising stamp env ls pre e \<longrightarrow>
      cycle stamp env ls = (ls, pre @ warning_and_sleep env e, after_warning env)) \<and>
   ((\<forall>x \<in> set envs. uncancelled x) \<longrightarrow>
      snd (snd (runner_loop stamp envs ls0)) = RUNNING \<and>
      length (filter (\<lambda>ev. fst ev = History) (fst (snd (runner_loop stamp envs ls0)))) =
        length envs) \<and>
   (cycle stamp env ls = (ls', tr, st) \<longrightarrow>
      (\<forall>a e. (a, Failed e) \<in> set tr \<and> \<not> is_warning a \<longrightarrow>
         suffix ((a, Failed e) # (Send (Warning e), outcome_of (send_warning env)) #
                 (if send_warning env = Cancelled then []
                  else [(Sleep POLL_SECONDS, if sleep_cancelled env then Interrupted else Ok)]))
           tr) \<and>
      (st = CANCELLED \<longleftrightarrow> (\<exists>a. (a, Interrupted) \<in> set tr))) \<and>
   (runner_loop stamp envs ls0 = (lsn, trn, stn) \<and> (\<forall>a. (a, Interrupted) \<notin> set trn) \<longrightarrow>
      stn = RUNNING \<and> length (filter (\<lambda>ev. fst ev = History) trn) = length envs)"
proof (intro conjI impI allI)
  assume "raising stamp env ls pre e"
  then show "cycle stamp env ls = (ls, pre @ warning_and_sleep env e, after_warning env)"
    by (rule cycle_raising)
next
  assume u: "\<forall>x \<in> set envs. uncancelled x"
  show "snd (snd (runner_loop stamp envs ls0)) = RUNNING"
    using runner_loop_uncancelled [OF u] by simp
  show "length (filter (\<lambda>ev. fst ev = History) (fst (snd (runner_loop stamp envs ls0)))) =
        length envs"
    using runner_loop_uncancelled [OF u] by simp
next
  fix a e
  assume "cycle stamp env ls = (ls', tr, st)" and "(a, Failed e) \<in> set tr \<and> \<not> is_warning a"
  then show "suffix ((a, Failed e) # (Send (Warning e), outcome_of (send_warning env)) #
                 (if send_warning env = Cancelled then []
                  else [(Sleep POLL_SECONDS, if sleep_cancelled env then Interrupted else Ok)]))
           tr"
    using cycle_failure_reported [of stamp env ls ls' tr st a e] by simp
next
  assume "cycle stamp env ls = (ls', tr, st)"
  then show "st = CANCELLED \<longleftrightarrow> (\<exists>a. (a, Interrupted) \<in> set tr)"
    by (rule cycle_cancelled_iff)
next
  assume h: "runner_loop stamp envs ls0 = (lsn, trn, stn) \<and> (\<forall>a. (a, Interrupted) \<notin> set trn)"
  then show "stn = RUNNING"
    using runner_loop_running [of stamp envs ls0 lsn trn stn] by simp
  from h show "length (filter (\<lambda>ev. fst ev = History) trn) = length envs"
    using runner_loop_running [of stamp envs ls0 lsn trn stn] by simp
qed

theorem cycle_errors_reported_and_survived_witness:
  "raising stamp_0 env_refused None
     [(History, Ok), (Get ''x.png'', Ok), (RaiseForStatus, Ok), (Read, Ok),
      (Send (Archived ''PNG''), Failed (Exn ''Forbidden'' ''403''))]
     (Exn ''Forbidden'' ''403'') \<and>
   cycle stamp_0 env_refused None =
     (None,
      [(History, Ok), (Get ''x.png'', Ok), (RaiseForStatus, Ok), (Read, Ok),
       (Send (Archived ''PNG''), Failed (Exn ''Forbidden'' ''403'')),
       (Send (Warning (Exn ''Forbidden'' ''403'')), Failed (Exn ''HTTPException'' ''500'')),
       (Sleep POLL_SECONDS, Ok)], RUNNING) \<and>
   raising stamp_0 env_down None [(History, Failed (Exn ''HTTPException'' ''503''))]
     (Exn ''HTTPException'' ''503'') \<and>
   cycle stamp_0 env_down None =
     (None,
      [(History, Failed (Exn ''HTTPException'' ''503'')),
       (Send (Warning (Exn ''HTTPException'' ''503'')), Failed (Exn ''Forbidden'' ''403'')),
       (Sleep POLL_SECONDS, Ok)], RUNNING) \<and>
   snd (snd (runner_loop stamp_0 [env_down, env_refused] None)) = RUNNING \<and>
   length (filter (\<lambda>ev. fst ev = History)
             (fst (snd (runner_loop stamp_0 [env_down, env_refused] None)))) = 2"
proof -
  have f: "send_warning env_refused = Raised (Exn ''HTTPException'' ''500'')"
    "\<not> sleep_cancelled env_refused"
    "send_warning env_down = Raised (Exn ''Forbidden'' ''403'')" "\<not> sleep_cancelled env_down"
    by (simp_all add: env_refused_def env_down_def env_ok_def)
  have a: "cycle stamp_0 env_refused None =
     (None,
      [(History, Ok), (Get ''x.png'', Ok), (RaiseForStatus, Ok), (Read, Ok),
       (Send (Archived ''PNG''), Failed (Exn ''Forbidden'' ''403'')),
       (Send (Warning (Exn ''Forbidden'' ''403'')), Failed (Exn ''HTTPException'' ''500'')),
       (Sleep POLL_SECONDS, Ok)], RUNNING)"
    using cycle_errors_reported_and_survived [of stamp_0 env_refused None _ _ "[]",
        THEN conjunct1, rule_format, OF raising_env_refused]
    by (simp add: env_defs f)
  have b: "cycle stamp_0 env_down None =
     (None,
      [(History, Failed (Exn ''HTTPException'' ''503'')),
       (Send (Warning (Exn ''HTTPException'' ''503'')), Failed (Exn ''Forbidden'' ''403'')),
       (Sleep POLL_SECONDS, Ok)], RUNNING)"
    using cycle_errors_reported_and_survived [of stamp_0 env_down None _ _ "[]",
        THEN conjunct1, rule_format, OF raising_env_down]
    by (simp add: env_defs f)
  have u: "\<forall>x \<in> set [env_down, env_refused]. uncancelled x"
    using uncancelled_envs by simp
  have c: "snd (snd (runner_loop stamp_0 [env_down, env_refused] None)) = RUNNING \<and>
      length (filter (\<lambda>ev. fst ev = History)
                (fst (snd (runner_loop stamp_0 [env_down, env_refused] None)))) =
        length [env_down, env_refused]"
    using cycle_errors_reported_and_survived [of stamp_0 env_down None "[]" "Exn [] []"
        "[env_down, env_refused]" None, THEN conjunct2, THEN conjunct1, THEN mp, OF u] .
  then have c': "length (filter (\<lambda>ev. fst ev = History)
             (fst (snd (runner_loop stamp_0 [env_down, env_refused] None)))) = 2"
    by simp
  show ?thesis
    using raising_env_refused a raising_env_down b c c' by blast
qed




section \<open>Properties of the command\<close>

lemmas command_defs = archieved_begin_def pop_and_cancel_def task_done_def cancel_def
  get_text_channel_def

lemmas command_splits = await.splits option.splits channel.splits if_splits prod.splits bool.splits

lemma mode_start: "strip (lower ''start'') = ''start''"
  by code_simp

lemma mode_stop: "strip (lower '' Stop'') = ''stop''"
  by code_simp

lemma run_append: "run cfg (evs @ [ev]) st = step cfg (run cfg evs st) ev"
  by (simp add: run_def)

lemma overlapping_begin_1:
  "archieved_begin cfg_0 cmd_env_ok init owner_call ''start'' None =
     (init, Some (Started (TextChannel 10) (TextChannel 20) POLL_SECONDS, True),
      StartRunner (5, 7) (TextChannel 10) (TextChannel 20))"
  by (simp add: archieved_begin_def mode_start is_owner_def cfg_0_def cmd_env_ok_def owner_call_def
      key_of_def get_text_channel_def pop_and_cancel_def init_def)

lemma started_once:
  "archieved cfg_0 cmd_env_ok init owner_call ''start'' None =
     (\<lparr>active_archives = [(5, 7) \<mapsto> 0],
       tasks = [\<lparr>task_key = (5, 7), source_channel = TextChannel 10,
                 out_ch = TextChannel 20, task_status = Pending\<rparr>]\<rparr>,
      Some (Started (TextChannel 10) (TextChannel 20) POLL_SECONDS, True))"
proof -
  have "send_message cmd_env_ok = Returned ()"
    by (simp add: cmd_env_ok_def)
  then show ?thesis
    by (simp add: archieved_def overlapping_begin_1 archieved_resume_def) (simp add: init_def)
qed

subsection \<open>The owner check\<close>

text \<open>
  C9. An invocation by a caller whose id is not the configured owner id is answered with
  the owner-only reply, sent ephemeral, and nothing else: the module state is what it was
  (no entry added or removed, no task created or cancelled) and nothing is left to do after
  the reply, whatever the mode, the arguments and the environment.
\<close>

theorem non_owner_rejected:
  assumes "user_id i \<noteq> BOT_OWNER_ID cfg"
  shows "archieved_begin cfg env st i mode output_channel = (st, Some (OwnerOnly, True), Finished) \<and>
         archieved cfg env st i mode output_channel = (st, Some (OwnerOnly, True))"
  using assms by (simp add: archieved_def archieved_begin_def archieved_resume_def is_owner_def)

theorem non_owner_rejected_witness:
  "user_id (owner_call\<lparr>user_id := 8\<rparr>) \<noteq> BOT_OWNER_ID cfg_0 \<and>
   archieved_begin cfg_0 cmd_env_ok init (owner_call\<lparr>user_id := 8\<rparr>) ''start'' None =
     (init, Some (OwnerOnly, True), Finished) \<and>
   archieved cfg_0 cmd_env_ok init (owner_call\<lparr>user_id := 8\<rparr>) ''start'' None =
     (init, Some (OwnerOnly, True))"
proof -
  have n: "user_id (owner_call\<lparr>user_id := 8\<rparr>) \<noteq> BOT_OWNER_ID cfg_0"
    by (simp add: cfg_0_def)
  show ?thesis
    using n non_owner_rejected [OF n, of cmd_env_ok init "''start''" None] by blast
qed

text \<open>
  C10. When the configured owner id is 0, no caller is the owner, a caller with id 0
  included: every invocation is answered with the owner-only reply and changes nothing, and
  after any sequence of invocations and task ends no task has been created and the
  registry is empty.
\<close>

theorem unconfigured_owner_fails_closed:
  assumes "BOT_OWNER_ID cfg = 0"
  shows "\<not> is_owner cfg uid \<and> \<not> is_owner cfg 0 \<and>
         archieved_begin cfg env st i mode output_channel = (st, Some (OwnerOnly, True), Finished) \<and>
         tasks (run cfg evs init) = [] \<and> active_archives (run cfg evs init) = Map.empty"
proof -
  have o: "\<not> is_owner cfg u" for u
    using assms by (simp add: is_owner_def)
  have b: "archieved_begin cfg env st i mode output_channel = (st, Some (OwnerOnly, True), Finished)"
    for env st i mode output_channel
    using o by (simp add: archieved_begin_def)
  have r: "run cfg evs init = init"
  proof (induction evs rule: rev_induct)
    case Nil
    then show ?case by (simp add: run_def)
  next
    case (snoc ev evs)
    then show ?case
      by (cases ev) (simp_all add: run_append archieved_def b archieved_resume_def task_ends_def init_def)
  qed
  from o b r show ?thesis by (simp add: init_def)
qed

theorem unconfigured_owner_fails_closed_witness:
  "BOT_OWNER_ID (cfg_0\<lparr>BOT_OWNER_ID := 0\<rparr>) = 0 \<and>
   \<not> is_owner (cfg_0\<lparr>BOT_OWNER_ID := 0\<rparr>) 0 \<and>
   archieved_begin (cfg_0\<lparr>BOT_OWNER_ID := 0\<rparr>) cmd_env_ok init (owner_call\<lparr>user_id := 0\<rparr>)
     ''start'' None = (init, Some (OwnerOnly, True), Finished) \<and>
   tasks (run (cfg_0\<lparr>BOT_OWNER_ID := 0\<rparr>)
            [Invoke cmd_env_ok (owner_call\<lparr>user_id := 0\<rparr>) ''start'' None] init) = []"
proof -
  have z: "BOT_OWNER_ID (cfg_0\<lparr>BOT_OWNER_ID := 0\<rparr>) = 0"
    by simp
  show ?thesis
    using z unconfigured_owner_fails_closed [OF z, of 7 cmd_env_ok init
        "owner_call\<lparr>user_id := 0\<rparr>" "''start''" None
        "[Invoke cmd_env_ok (owner_call\<lparr>user_id := 0\<rparr>) ''start'' None]"]
    by blast
qed

subsection \<open>The registry\<close>

lemma registry_okD:
  assumes "registry_ok st" and "active_archives st key = Some tid"
  shows "tid < length (tasks st)" and "task_key (tasks st ! tid) = key"
    and "task_status (tasks st ! tid) \<noteq> CancelRequested"
  using assms unfolding registry_ok_def by blast+

lemma registry_okI:
  assumes "\<And>key tid. active_archives st key = Some tid \<Longrightarrow>
             tid < length (tasks st) \<and> task_key (tasks st ! tid) = key \<and>
             task_status (tasks st ! tid) \<noteq> CancelRequested"
  shows "registry_ok st"
  using assms unfolding registry_ok_def by blast

lemma registry_ok_init: "registry_ok init"
  by (rule registry_okI) (simp add: init_def)

lemma pop_and_cancel_cases:
  obtains (absent) "active_archives st key = None" and "pop_and_cancel st key = (st, False)"
  | (finished) tid where "active_archives st key = Some tid" and "task_done st tid"
      and "pop_and_cancel st key = (st\<lparr>active_archives := (active_archives st)(key := None)\<rparr>, False)"
  | (cancelled) tid where "active_archives st key = Some tid" and "\<not> task_done st tid"
      and "pop_and_cancel st key =
             (st\<lparr>active_archives := (active_archives st)(key := None),
                 tasks := (tasks st)[tid := (tasks st ! tid)\<lparr>task_status := CancelRequested\<rparr>]\<rparr>,
              True)"
  by (cases "active_archives st key") (auto simp: pop_and_cancel_def cancel_def Let_def)

lemma registry_ok_pop_and_cancel:
  assumes "registry_ok st"
  shows "registry_ok (fst (pop_and_cancel st key))"
proof (cases rule: pop_and_cancel_cases [of st key])
  case absent
  with assms show ?thesis by simp
next
  case (finished tid)
  show ?thesis
  proof (rule registry_okI)
    fix k t
    assume "active_archives (fst (pop_and_cancel st key)) k = Some t"
    then have "active_archives st k = Some t"
      using finished(3) by (simp split: if_splits)
    then show "t < length (tasks (fst (pop_and_cancel st key))) \<and>
               task_key (tasks (fst (pop_and_cancel st key)) ! t) = k \<and>
               task_status (tasks (fst (pop_and_cancel st key)) ! t) \<noteq> CancelRequested"
      using registry_okD [OF assms] finished(3) by simp
  qed
next
  case (cancelled tid)
  show ?thesis
  proof (rule registry_okI)
    fix k t
    assume a: "active_archives (fst (pop_and_cancel st key)) k = Some t"
    then have k: "k \<noteq> key" and r: "active_archives st k = Some t"
      using cancelled(3) by (simp_all split: if_splits)
    have "task_key (tasks st ! tid) = key" and "task_key (tasks st ! t) = k"
      using registry_okD(2) [OF assms] cancelled(1) r by simp_all
    with k have "t \<noteq> tid" by auto
    then show "t < length (tasks (fst (pop_and_cancel st key))) \<and>
               task_key (tasks (fst (pop_and_cancel st key)) ! t) = k \<and>
               task_status (tasks (fst (pop_and_cancel st key)) ! t) \<noteq> CancelRequested"
      using registry_okD [OF assms r] cancelled(3) by simp
  qed
qed

lemma archieved_begin_cases:
  assumes "archieved_begin cfg env st i mode output_channel = (st', r, k)"
  obtains (same) "st' = st" and "k = Finished"
  | (stop) "st' = fst (pop_and_cancel st (key_of i))" and "k = Finished"
  | (start) src out where "st' = fst (pop_and_cancel st (key_of i))"
      and "k = StartRunner (key_of i) src out"
  using assms
  by (auto simp: archieved_begin_def Let_def split: command_splits)

lemma registry_ok_begin:
  assumes "registry_ok st" and "archieved_begin cfg env st i mode output_channel = (st', r, k)"
  shows "registry_ok st'"
  using assms(2)
  by (cases rule: archieved_begin_cases) (simp_all add: assms(1) registry_ok_pop_and_cancel)

lemma registry_ok_resume:
  assumes "registry_ok st"
  shows "registry_ok (archieved_resume st answer k)"
proof (cases "\<exists>key src out. k = StartRunner key src out \<and> answer = Returned ()")
  case False
  then have "archieved_resume st answer k = st"
    by (auto simp: archieved_resume_def split: continuation.splits await.splits)
  with assms show ?thesis by simp
next
  case True
  then obtain key src out where k: "k = StartRunner key src out" "answer = Returned ()"
    by blast
  show ?thesis
  proof (rule registry_okI)
    fix k' t
    assume a: "active_archives (archieved_resume st answer k) k' = Some t"
    show "t < length (tasks (archieved_resume st answer k)) \<and>
          task_key (tasks (archieved_resume st answer k) ! t) = k' \<and>
          task_status (tasks (archieved_resume st answer k) ! t) \<noteq> CancelRequested"
    proof (cases "k' = key")
      case True
      with a k show ?thesis by (auto simp: archieved_resume_def)
    next
      case False
      with a k have r: "active_archives st k' = Some t" by (simp add: archieved_resume_def)
      show ?thesis
        using registry_okD [OF assms r] k by (simp add: archieved_resume_def nth_append)
    qed
  qed
qed

lemma registry_ok_task_ends:
  assumes "registry_ok st"
  shows "registry_ok (task_ends tid st)"
proof (rule registry_okI)
  fix k t
  assume "active_archives (task_ends tid st) k = Some t"
  then have "active_archives st k = Some t"
    by (simp add: task_ends_def split: if_splits)
  then show "t < length (tasks (task_ends tid st)) \<and>
             task_key (tasks (task_ends tid st) ! t) = k \<and>
             task_status (tasks (task_ends tid st) ! t) \<noteq> CancelRequested"
    using registry_okD [OF assms] by (simp add: task_ends_def nth_list_update)
qed

text \<open>
  C8. For an invocation by the owner whose mode reads stop, in a state whose registry
  entries are tasks created for their key with no cancellation requested: when the
  registry holds a live task under the caller's key, that task gets a cancellation request,
  the entry is removed and the reply is the success message; when it holds no live task
  under the key (no entry, or a task that is done), the reply is that nothing is active and
  no task is touched.
\<close>

theorem stop_cancels_registered_task:
  assumes "is_owner cfg (user_id i)" and "strip (lower mode) = ''stop''" and "registry_ok st"
  shows "(\<forall>tid. active_archives st (key_of i) = Some tid \<and> live st tid \<longrightarrow>
            archieved_begin cfg env st i mode output_channel =
              (st\<lparr>active_archives := (active_archives st)(key_of i := None),
                  tasks := (tasks st)[tid := (tasks st ! tid)\<lparr>task_status := CancelRequested\<rparr>]\<rparr>,
               Some (Stopped, True), Finished)) \<and>
         ((\<forall>tid. active_archives st (key_of i) = Some tid \<longrightarrow> \<not> live st tid) \<longrightarrow>
            archieved_begin cfg env st i mode output_channel =
              (st\<lparr>active_archives := (active_archives st)(key_of i := None)\<rparr>,
               Some (NoActive, True), Finished))"
proof (intro conjI allI impI)
  fix tid
  assume "active_archives st (key_of i) = Some tid \<and> live st tid"
  then show "archieved_begin cfg env st i mode output_channel =
              (st\<lparr>active_archives := (active_archives st)(key_of i := None),
                  tasks := (tasks st)[tid := (tasks st ! tid)\<lparr>task_status := CancelRequested\<rparr>]\<rparr>,
               Some (Stopped, True), Finished)"
    using assms(1,2) by (simp add: command_defs live_def)
next
  assume n: "\<forall>tid. active_archives st (key_of i) = Some tid \<longrightarrow> \<not> live st tid"
  show "archieved_begin cfg env st i mode output_channel =
              (st\<lparr>active_archives := (active_archives st)(key_of i := None)\<rparr>,
               Some (NoActive, True), Finished)"
  proof (cases "active_archives st (key_of i)")
    case None
    then have "st\<lparr>active_archives := (active_archives st)(key_of i := None)\<rparr> = st"
      by (simp add: fun_upd_idem)
    with None show ?thesis
      using assms(1,2) by (simp add: command_defs)
  next
    case (Some tid)
    then have "tid < length (tasks st)" and "task_status (tasks st ! tid) \<noteq> CancelRequested"
      using assms(3) unfolding registry_ok_def by blast+
    moreover have "\<not> live st tid"
      using n Some by simp
    ultimately have "task_status (tasks st ! tid) = Done"
      by (cases "task_status (tasks st ! tid)") (auto simp: live_def)
    with Some show ?thesis
      using assms(1,2) by (simp add: command_defs)
  qed
qed

theorem stop_cancels_registered_task_witness:
  "(let st = fst (archieved cfg_0 cmd_env_ok init owner_call ''start'' None)
    in is_owner cfg_0 (user_id owner_call) \<and> strip (lower '' Stop'') = ''stop'' \<and>
       registry_ok st \<and> registry_ok init \<and>
       active_archives st (key_of owner_call) = Some 0 \<and> live st 0 \<and>
       archieved_begin cfg_0 cmd_env_ok st owner_call '' Stop'' None =
         (\<lparr>active_archives = Map.empty,
           tasks = [\<lparr>task_key = (5, 7), source_channel = TextChannel 10,
                     out_ch = TextChannel 20, task_status = CancelRequested\<rparr>]\<rparr>,
          Some (Stopped, True), Finished) \<and>
       archieved_begin cfg_0 cmd_env_ok init owner_call '' Stop'' None =
         (init, Some (NoActive, True), Finished))"
proof -
  let ?st = "\<lparr>active_archives = [(5, 7) \<mapsto> (0::nat)],
       tasks = [\<lparr>task_key = (5, 7), source_channel = TextChannel 10,
                 out_ch = TextChannel 20, task_status = Pending\<rparr>]\<rparr>"
  have o: "is_owner cfg_0 (user_id owner_call)"
    by (simp add: is_owner_def cfg_0_def owner_call_def)
  have k: "key_of owner_call = (5, 7)"
    by (simp add: key_of_def owner_call_def)
  have r: "registry_ok ?st"
    by (rule registry_okI) (simp split: if_splits)
  have l: "active_archives ?st (key_of owner_call) = Some 0 \<and> live ?st 0"
    by (simp add: k live_def)
  have n: "\<forall>tid. active_archives init (key_of owner_call) = Some tid \<longrightarrow> \<not> live init tid"
    by (simp add: init_def)
  have a: "archieved_begin cfg_0 cmd_env_ok ?st owner_call '' Stop'' None =
         (\<lparr>active_archives = Map.empty,
           tasks = [\<lparr>task_key = (5, 7), source_channel = TextChannel 10,
                     out_ch = TextChannel 20, task_status = CancelRequested\<rparr>]\<rparr>,
          Some (Stopped, True), Finished)"
    using stop_cancels_registered_task [OF o mode_stop r, of cmd_env_ok None, THEN conjunct1,
        rule_format, OF l] by (simp add: k)
  have b: "archieved_begin cfg_0 cmd_env_ok init owner_call '' Stop'' None =
         (init, Some (NoActive, True), Finished)"
    using stop_cancels_registered_task [OF o mode_stop registry_ok_init, of cmd_env_ok None,
        THEN conjunct2] n by (simp add: init_def)
  show ?thesis
    unfolding started_once fst_conv Let_def
    using o mode_stop r registry_ok_init l a b by blast
qed

subsection \<open>Invocations that do not overlap, and two that do\<close>

lemma live_registeredD:
  assumes "live_registered st" and "live st tid"
  shows "active_archives st (task_key (tasks st ! tid)) = Some tid"
  using assms unfolding live_registered_def by blast

lemma live_registeredI:
  assumes "\<And>tid. live st tid \<Longrightarrow> active_archives st (task_key (tasks st ! tid)) = Some tid"
  shows "live_registered st"
  using assms unfolding live_registered_def by blast

lemma live_registered_init: "live_registered init"
  by (rule live_registeredI) (simp add: live_def init_def)

text \<open>After the pop, no task of the key is live and every other live task keeps its entry.\<close>

lemma pop_and_cancel_clears_key:
  assumes "registry_ok st" and "live_registered st"
  shows "live_registered (fst (pop_and_cancel st key)) \<and>
         (\<forall>tid. live (fst (pop_and_cancel st key)) tid \<longrightarrow>
                task_key (tasks (fst (pop_and_cancel st key)) ! tid) \<noteq> key) \<and>
         length (tasks (fst (pop_and_cancel st key))) = length (tasks st)"
proof (cases rule: pop_and_cancel_cases [of st key])
  case absent
  have "task_key (tasks st ! tid) \<noteq> key" if "live st tid" for tid
    using live_registeredD [OF assms(2) that] absent(1) by auto
  with absent assms show ?thesis by simp
next
  case (finished tid)
  let ?st' = "st\<lparr>active_archives := (active_archives st)(key := None)\<rparr>"
  have l: "live ?st' t = live st t" for t
    by (simp add: live_def)
  have nk: "task_key (tasks st ! t) \<noteq> key" if "live st t" for t
  proof
    assume "task_key (tasks st ! t) = key"
    then have "t = tid"
      using live_registeredD [OF assms(2) that] finished(1) by simp
    with that finished(2) show False
      by (simp add: live_def task_done_def)
  qed
  have "live_registered ?st'"
  proof (rule live_registeredI)
    fix t
    assume "live ?st' t"
    then have lt: "live st t" by (simp add: l)
    then show "active_archives ?st' (task_key (tasks ?st' ! t)) = Some t"
      using live_registeredD [OF assms(2) lt] nk [OF lt] by simp
  qed
  with finished(3) nk l show ?thesis by simp
next
  case (cancelled tid)
  let ?st' = "st\<lparr>active_archives := (active_archives st)(key := None),
                 tasks := (tasks st)[tid := (tasks st ! tid)\<lparr>task_status := CancelRequested\<rparr>]\<rparr>"
  have tid: "tid < length (tasks st)" "task_key (tasks st ! tid) = key"
    using registry_okD [OF assms(1) cancelled(1)] by simp_all
  have l: "live st t \<and> t \<noteq> tid" if "live ?st' t" for t
    using that tid by (cases "t = tid") (auto simp: live_def)
  have nk: "task_key (tasks st ! t) \<noteq> key" if "live st t" "t \<noteq> tid" for t
  proof
    assume "task_key (tasks st ! t) = key"
    then have "t = tid"
      using live_registeredD [OF assms(2) that(1)] cancelled(1) by simp
    with that(2) show False by simp
  qed
  have "live_registered ?st'"
  proof (rule live_registeredI)
    fix t
    assume a: "live ?st' t"
    then have lt: "live st t" and ne: "t \<noteq> tid" using l by simp_all
    then show "active_archives ?st' (task_key (tasks ?st' ! t)) = Some t"
      using live_registeredD [OF assms(2) lt] nk [OF lt ne] by simp
  qed
  moreover have "task_key (tasks ?st' ! t) \<noteq> key" if "live ?st' t" for t
    using l [OF that] nk [of t] by simp
  ultimately show ?thesis
    using cancelled(3) by simp
qed

lemma resume_registers_new_task:
  assumes "live_registered st"
    and "\<forall>tid. live st tid \<longrightarrow> task_key (tasks st ! tid) \<noteq> key"
  shows "live_registered (archieved_resume st (Returned ()) (StartRunner key src out)) \<and>
         live_tasks (archieved_resume st (Returned ()) (StartRunner key src out)) key =
           [length (tasks st)]"
proof
  let ?st' = "archieved_resume st (Returned ()) (StartRunner key src out)"
  have t: "tasks ?st' = tasks st @
             [\<lparr>task_key = key, source_channel = src, out_ch = out, task_status = Pending\<rparr>]"
    and r: "active_archives ?st' = (active_archives st)(key \<mapsto> length (tasks st))"
    by (simp_all add: archieved_resume_def)
  show "live_registered ?st'"
  proof (rule live_registeredI)
    fix tid
    assume a: "live ?st' tid"
    show "active_archives ?st' (task_key (tasks ?st' ! tid)) = Some tid"
    proof (cases "tid < length (tasks st)")
      case True
      with a have lt: "live st tid" by (simp add: live_def t nth_append)
      then have "task_key (tasks st ! tid) \<noteq> key" using assms(2) by simp
      with True show ?thesis
        using live_registeredD [OF assms(1) lt] by (simp add: t r nth_append)
    next
      case False
      with a have "tid = length (tasks st)" by (simp add: live_def t)
      then show ?thesis by (simp add: t r)
    qed
  qed
  have "filter (\<lambda>tid. task_key (tasks ?st' ! tid) = key \<and> task_status (tasks ?st' ! tid) = Pending)
          [0 ..< length (tasks st)] = []"
    using assms(2) by (auto simp: filter_empty_conv t nth_append live_def)
  then show "live_tasks ?st' key = [length (tasks st)]"
    by (simp add: live_tasks_def t)
qed

lemma live_registered_task_ends:
  assumes "live_registered st"
  shows "live_registered (task_ends tid st)"
proof (rule live_registeredI)
  fix t
  assume a: "live (task_ends tid st) t"
  then have lt: "live st t" and ne: "t \<noteq> tid"
    by (auto simp: live_def task_ends_def nth_list_update split: if_splits)
  then show "active_archives (task_ends tid st) (task_key (tasks (task_ends tid st) ! t)) = Some t"
    using live_registeredD [OF assms lt] by (simp add: task_ends_def)
qed

lemma archieved_sequential_invariant:
  assumes "registry_ok st" and "live_registered st"
    and "archieved cfg env st i mode output_channel = (st', r)"
  shows "registry_ok st' \<and> live_registered st'"
proof -
  obtain s1 k where b: "archieved_begin cfg env st i mode output_channel = (s1, r, k)"
    and st': "st' = archieved_resume s1 (send_message env) k"
    using assms(3) by (auto simp: archieved_def split: prod.splits)
  have ok: "registry_ok st'"
    using registry_ok_resume [OF registry_ok_begin [OF assms(1) b]] st' by simp
  from b have "live_registered st'"
  proof (cases rule: archieved_begin_cases)
    case same
    with st' assms(2) show ?thesis by (simp add: archieved_resume_def)
  next
    case stop
    with st' show ?thesis
      using pop_and_cancel_clears_key [OF assms(1,2), of "key_of i"]
      by (simp add: archieved_resume_def)
  next
    case (start src out)
    note p = pop_and_cancel_clears_key [OF assms(1,2), of "key_of i"]
    show ?thesis
    proof (cases "send_message env")
      case (Returned u)
      then show ?thesis
        using resume_registers_new_task [of s1 "key_of i" src out] p start st' by simp
    next
      case (Raised e)
      with p start st' show ?thesis by (simp add: archieved_resume_def)
    next
      case Cancelled
      with p start st' show ?thesis by (simp add: archieved_resume_def)
    qed
  qed
  with ok show ?thesis by simp
qed

lemma run_sequential_invariant:
  "registry_ok (run cfg evs init) \<and> live_registered (run cfg evs init)"
proof (induction evs rule: rev_induct)
  case Nil
  then show ?case by (simp add: run_def registry_ok_init live_registered_init)
next
  case (snoc ev evs)
  show ?case
  proof (cases ev)
    case (Invoke env i mode output_channel)
    then show ?thesis
      using snoc archieved_sequential_invariant [of "run cfg evs init" cfg env i mode output_channel]
      by (cases "archieved cfg env (run cfg evs init) i mode output_channel")
         (simp add: run_def)
  next
    case (TaskEnds tid)
    then show ?thesis
      using snoc by (simp add: run_def registry_ok_task_ends live_registered_task_ends)
  qed
qed

lemma live_tasks_at_most_one:
  assumes "live_registered st"
  shows "length (live_tasks st key) \<le> 1"
proof -
  have d: "distinct (live_tasks st key)"
    by (simp add: live_tasks_def)
  have u: "t = t'" if "t \<in> set (live_tasks st key)" "t' \<in> set (live_tasks st key)" for t t'
  proof -
    from that have "live st t" "task_key (tasks st ! t) = key"
      and "live st t'" "task_key (tasks st ! t') = key"
      by (auto simp: live_tasks_def live_def)
    then show ?thesis
      using live_registeredD [OF assms, of t] live_registeredD [OF assms, of t'] by simp
  qed
  show ?thesis
  proof (cases "live_tasks st key")
    case Nil
    then show ?thesis by simp
  next
    case (Cons t ts)
    have "ts = []"
    proof (cases ts)
      case Nil
      then show ?thesis .
    next
      case (Cons t' ts')
      with \<open>live_tasks st key = t # ts\<close> u [of t t'] d show ?thesis by simp
    qed
    with Cons show ?thesis by simp
  qed
qed

lemma sequential_runs_single_live:
  "length (live_tasks (run cfg evs init) key) \<le> 1"
  using run_sequential_invariant live_tasks_at_most_one by blast

lemma sequential_start_replaces:
  assumes "registry_ok st" and "live_registered st"
    and "is_owner cfg (user_id i)" and "strip (lower mode) = ''start''"
    and "get_text_channel env (SOURCE_CHANNEL_ID cfg) = Returned src"
    and "(case output_channel of None \<Rightarrow> interaction_channel i | Some c \<Rightarrow> Some c) =
           Some (TextChannel c)"
    and "send_message env = Returned ()"
  shows "\<exists>st'. archieved cfg env st i mode output_channel =
                 (st', Some (Started src (TextChannel c) POLL_SECONDS, True)) \<and>
               active_archives st' (key_of i) = Some (length (tasks st)) \<and>
               live_tasks st' (key_of i) = [length (tasks st)]"
proof -
  let ?s1 = "fst (pop_and_cancel st (key_of i))"
  have b: "archieved_begin cfg env st i mode output_channel =
             (?s1, Some (Started src (TextChannel c) POLL_SECONDS, True),
              StartRunner (key_of i) src (TextChannel c))"
    using assms(3-6) by (simp add: archieved_begin_def Let_def)
  note p = pop_and_cancel_clears_key [OF assms(1,2), of "key_of i"]
  have "live_tasks (archieved_resume ?s1 (Returned ()) (StartRunner (key_of i) src (TextChannel c)))
          (key_of i) = [length (tasks st)]"
    using resume_registers_new_task [of ?s1 "key_of i" src "TextChannel c"] p by simp
  moreover have "active_archives
      (archieved_resume ?s1 (Returned ()) (StartRunner (key_of i) src (TextChannel c))) (key_of i) =
        Some (length (tasks st))"
    using p by (simp add: archieved_resume_def)
  ultimately show ?thesis
    using b assms(7) by (simp add: archieved_def)
qed

lemma sequential_starts:
  "(case archieved cfg_0 cmd_env_ok init owner_call ''start'' None of
      (s1, r1) \<Rightarrow>
        (case archieved cfg_0 cmd_env_ok s1 owner_call ''start'' None of
           (s2, r2) \<Rightarrow> live_tasks s2 (5, 7) = [1] \<and> active_archives s2 (5, 7) = Some 1 \<and>
              map task_status (tasks s2) = [CancelRequested, Pending]))"
proof -
  have e: "send_message cmd_env_ok = Returned ()"
    by (simp add: cmd_env_ok_def)
  have 1: "archieved cfg_0 cmd_env_ok init owner_call ''start'' None =
        (\<lparr>active_archives = [(5, 7) \<mapsto> 0],
          tasks = [\<lparr>task_key = (5, 7), source_channel = TextChannel 10,
                    out_ch = TextChannel 20, task_status = Pending\<rparr>]\<rparr>,
         Some (Started (TextChannel 10) (TextChannel 20) POLL_SECONDS, True))"
    by (simp add: archieved_def overlapping_begin_1 archieved_resume_def e) (simp add: init_def)
  show ?thesis
    unfolding 1 prod.case
    by (simp add: archieved_def archieved_resume_def live_tasks_def Let_def
      cmd_env_ok_def archieved_begin_def mode_start is_owner_def cfg_0_def owner_call_def
      key_of_def get_text_channel_def pop_and_cancel_def task_done_def cancel_def)
qed

text \<open>
  C4. The specification wants at most one live archiver task for a key: a start under a
  key cancels the old task and registers the new one, so that two starts with the same key
  leave exactly one live task. The code does this when invocations do not overlap (lemmas
  \<open>sequential_start_replaces\<close> and \<open>sequential_runs_single_live\<close>), and its registry never
  holds more than one task for a key. It does not when two invocations overlap: the start
  path removes and cancels the old task, then awaits its reply, and creates and registers
  the new task only after that await (the last two statements of the function). When the
  owner's second start begins while the first is suspended in that await, it finds no
  entry to cancel; both invocations then create a task, the second overwriting the entry
  of the first. The key (5, 7) ends with the two live tasks 0 and 1, of which the registry
  holds only task 1.
\<close>

theorem overlapping_starts_leave_two_live_tasks:
  "(case archieved_begin cfg_0 cmd_env_ok init owner_call ''start'' None of
      (s1, r1, k1) \<Rightarrow>
        (case archieved_begin cfg_0 cmd_env_ok s1 owner_call ''start'' None of
           (s2, r2, k2) \<Rightarrow>
             (let s3 = archieved_resume s2 (Returned ()) k1;
                  s4 = archieved_resume s3 (Returned ()) k2
              in live_tasks s4 (5, 7) = [0, 1] \<and> active_archives s4 (5, 7) = Some 1)))"
  unfolding overlapping_begin_1 prod.case
  by (simp add: archieved_resume_def init_def live_tasks_def)


end
